theory Spec2Isabelle
  imports Complex_Main "HOL-Library.Sublist"
begin

section \<open>Text\<close>

text \<open>
  A Python \<open>str\<close> is a sequence of Unicode code points, and \<open>len\<close> counts code points.
  A string is therefore a list of code points (natural numbers); \<open>cps\<close> reads an ASCII
  literal as such a list.
\<close>

type_synonym cp = nat
type_synonym str = "cp list"

definition cps :: "string \<Rightarrow> str" where
  "cps s = map of_char s"

definition SP :: cp where "SP = 32"
definition NL :: cp where "NL = 10"
definition CR :: cp where "CR = 13"
definition TAB :: cp where "TAB = 9"

text \<open>
  \<open>str.isspace\<close> of a single code point, which is what \<open>str.strip()\<close> and \<open>str.split()\<close>
  without argument test: general category Zs, or bidirectional class WS, B or S.
\<close>

definition py_isspace :: "cp \<Rightarrow> bool" where
  "py_isspace c \<longleftrightarrow>
     (9 \<le> c \<and> c \<le> 13) \<or> (28 \<le> c \<and> c \<le> 32) \<or> c = 133 \<or> c = 160 \<or> c = 5760 \<or>
     (8192 \<le> c \<and> c \<le> 8202) \<or> c = 8232 \<or> c = 8233 \<or> c = 8239 \<or> c = 8287 \<or> c = 12288"

definition lstrip :: "str \<Rightarrow> str" where
  "lstrip t = dropWhile py_isspace t"

definition rstrip :: "str \<Rightarrow> str" where
  "rstrip t = rev (dropWhile py_isspace (rev t))"

definition strip :: "str \<Rightarrow> str" where
  "strip t = rstrip (lstrip t)"

section \<open>processor.py: TextNormalizer\<close>

text \<open>
  \<open>unicodedata.normalize('NFKC', _)\<close> and \<open>unicodedata.category(_)[0] == 'C'\<close> read the
  Unicode character database, which is not part of the repository: they are the
  parameters \<open>nfkc\<close> and \<open>isC\<close> of every definition below.
\<close>

text \<open>\<open>''.join(c for c in text if category(c)[0] != 'C' or c in '\n\r\t')\<close>\<close>

definition strip_control :: "(cp \<Rightarrow> bool) \<Rightarrow> str \<Rightarrow> str" where
  "strip_control isC t = filter (\<lambda>c. \<not> isC c \<or> c = NL \<or> c = CR \<or> c = TAB) t"

text \<open>\<open>re.sub(r' {2,}', ' ', text)\<close>: every maximal run of two or more spaces becomes one.\<close>

fun collapse_spaces :: "str \<Rightarrow> str" where
  "collapse_spaces (x # y # r) =
     (if x = SP \<and> y = SP then collapse_spaces (y # r) else x # collapse_spaces (y # r))"
| "collapse_spaces t = t"

text \<open>\<open>text.replace('\r\n', '\n')\<close>, then \<open>.replace('\r', '\n')\<close>.\<close>

fun replace_crlf :: "str \<Rightarrow> str" where
  "replace_crlf (x # y # r) =
     (if x = CR \<and> y = NL then NL # replace_crlf r else x # replace_crlf (y # r))"
| "replace_crlf t = t"

definition replace_cr :: "str \<Rightarrow> str" where
  "replace_cr t = map (\<lambda>c. if c = CR then NL else c) t"

text \<open>
  \<open>re.sub(r' +\n', '\n', text)\<close>: a maximal run of spaces directly before a newline is
  removed. The first argument counts the spaces read and not yet written.
\<close>

fun strip_trailing :: "nat \<Rightarrow> str \<Rightarrow> str" where
  "strip_trailing n [] = replicate n SP"
| "strip_trailing n (x # r) =
     (if x = SP then strip_trailing (Suc n) r
      else if x = NL then NL # strip_trailing 0 r
      else replicate n SP @ x # strip_trailing 0 r)"

text \<open>
  \<open>re.sub(r'\n{3,}', '\n\n', text)\<close>: a run of three or more newlines becomes two. The
  first argument counts the newlines of the current run already written.
\<close>

fun collapse_newlines :: "nat \<Rightarrow> str \<Rightarrow> str" where
  "collapse_newlines k [] = []"
| "collapse_newlines k (x # r) =
     (if x = NL then (if 2 \<le> k then collapse_newlines k r else NL # collapse_newlines (Suc k) r)
      else x # collapse_newlines 0 r)"

text \<open>
  The two quote substitutions. In the source the first pattern is the concatenation of the
  literals r"[" and "X]" with X = U+201A (adjacent string literals), so its character class holds U+201A
  only; the second class holds the straight double quote and U+201E.
\<close>

definition LOW9_SINGLE :: cp where "LOW9_SINGLE = 8218"
definition LOW9_DOUBLE :: cp where "LOW9_DOUBLE = 8222"
definition APOSTROPHE :: cp where "APOSTROPHE = 39"
definition DQUOTE :: cp where "DQUOTE = 34"

definition single_quotes :: "str \<Rightarrow> str" where
  "single_quotes t = map (\<lambda>c. if c = LOW9_SINGLE then APOSTROPHE else c) t"

definition double_quotes :: "str \<Rightarrow> str" where
  "double_quotes t = map (\<lambda>c. if c = DQUOTE \<or> c = LOW9_DOUBLE then DQUOTE else c) t"

text \<open>The steps after the two Unicode-table steps, in the order of the source.\<close>

definition normalize_tail :: "str \<Rightarrow> str" where
  "normalize_tail t =
     strip (double_quotes (single_quotes (collapse_newlines 0 (strip_trailing 0
       (replace_cr (replace_crlf (collapse_spaces t)))))))"

definition normalize :: "(str \<Rightarrow> str) \<Rightarrow> (cp \<Rightarrow> bool) \<Rightarrow> str \<Rightarrow> str" where
  "normalize nfkc isC t =
     (if t = [] then [] else normalize_tail (strip_control isC (nfkc t)))"


text \<open>
  Shapes of a string that the steps establish: no two adjacent spaces, no space directly
  before a newline, no three adjacent newlines.
\<close>

fun nds :: "str \<Rightarrow> bool" where
  "nds (x # y # r) = (\<not> (x = SP \<and> y = SP) \<and> nds (y # r))"
| "nds t = True"

fun nsn :: "str \<Rightarrow> bool" where
  "nsn (x # y # r) = (\<not> (x = SP \<and> y = NL) \<and> nsn (y # r))"
| "nsn t = True"

fun n3 :: "str \<Rightarrow> bool" where
  "n3 (x # y # z # r) = (\<not> (x = NL \<and> y = NL \<and> z = NL) \<and> n3 (y # z # r))"
| "n3 t = True"


text \<open>
  Two rows of the Unicode character database, for evaluating the normalizer on concrete
  strings. \<open>isC_excerpt\<close> is the general category test on U+0000 to U+00FF and on
  U+200B ZERO WIDTH SPACE (category Cf); \<open>nfkc_excerpt\<close> performs the one composition
  of U+0061 followed by U+0301 COMBINING ACUTE ACCENT into U+00E1. They agree with
  \<open>unicodedata\<close> on the strings they are applied to below: ASCII text, U+201A and
  U+201E have no decomposition, and U+200B is a starter that blocks the composition
  across it.
\<close>

definition isC_excerpt :: "cp \<Rightarrow> bool" where
  "isC_excerpt c \<longleftrightarrow> c < 32 \<or> (127 \<le> c \<and> c < 160) \<or> c = 173 \<or> c = 8203"

fun nfkc_excerpt :: "str \<Rightarrow> str" where
  "nfkc_excerpt (x # y # r) =
     (if x = 97 \<and> y = 769 then 225 # nfkc_excerpt r else x # nfkc_excerpt (y # r))"
| "nfkc_excerpt t = t"

section \<open>Exceptions\<close>

text \<open>
  The code raises Python built-in exceptions only. An exception is its class and its
  message (\<open>str(e)\<close>); \<open>Library\<close> is any class defined outside the repository, such as
  the transport errors of the remote client, named by the given string.
  \<open>JSONDecodeError\<close> and \<open>RecursionError\<close> are the classes of those names that
  \<open>json.loads\<close> raises; the class of an exception is the class it was raised with, not
  one of its base classes.
\<close>

datatype exn_class =
  FileNotFoundError | ValueError | Exception | RuntimeError
  | AttributeError | TypeError | ZeroDivisionError
  | JSONDecodeError | RecursionError | Library str

datatype exn = Raised exn_class str

fun class_of :: "exn \<Rightarrow> exn_class" where
  "class_of (Raised c m) = c"

fun message_of :: "exn \<Rightarrow> str" where
  "message_of (Raised c m) = m"

section \<open>processor.py: ContractProcessor\<close>

text \<open>\<open>sep.join(parts)\<close>\<close>

fun join :: "str \<Rightarrow> str list \<Rightarrow> str" where
  "join sep [] = []"
| "join sep [p] = p"
| "join sep (p # q # r) = p @ sep @ join sep (q # r)"

text \<open>
  \<open>str.lower()\<close> reads the Unicode case tables and is a parameter \<open>lower\<close> below;
  \<open>ascii_lower\<close> is what it computes on ASCII text.
\<close>

definition ascii_lower :: "str \<Rightarrow> str" where
  "ascii_lower t = map (\<lambda>c. if 65 \<le> c \<and> c \<le> 90 then c + 32 else c) t"

text \<open>The Unicode functions the processor and the analyzer call, passed together.\<close>

record ucd =
  ucd_nfkc :: "str \<Rightarrow> str"
  ucd_isC :: "cp \<Rightarrow> bool"
  ucd_lower :: "str \<Rightarrow> str"

definition ucd_excerpt :: ucd where
  "ucd_excerpt = \<lparr>ucd_nfkc = nfkc_excerpt, ucd_isC = isC_excerpt, ucd_lower = ascii_lower\<rparr>"

subsection \<open>The file system and the format libraries\<close>

text \<open>
  What the processor observes of its surroundings: \<open>os.path.exists\<close>, \<open>Path(p).suffix\<close>,
  and the two format libraries. \<open>PdfReader(p)\<close> either raises or gives the pages, and
  \<open>page.extract_text()\<close> either raises or gives a string (empty for a page without
  text); \<open>docx.Document(p)\<close> either raises or gives the paragraph texts.
\<close>

record world =
  path_exists :: "str \<Rightarrow> bool"
  path_suffix :: "str \<Rightarrow> str"
  pdf_reader :: "str \<Rightarrow> exn + (exn + str) list"
  docx_document :: "str \<Rightarrow> exn + str list"

record processor =
  supported_formats :: "str list"
  normalize_text :: bool

text \<open>\<open>ContractProcessor.__init__(normalize_text=True)\<close>\<close>

definition init_processor :: "bool \<Rightarrow> processor" where
  "init_processor flag =
     \<lparr>supported_formats = [cps ''.pdf'', cps ''.docx'', cps ''.doc''], normalize_text = flag\<rparr>"

subsection \<open>\<open>_extract_from_pdf\<close>\<close>

text \<open>The loop over the pages; the first argument is the text accumulated so far.\<close>

fun pdf_pages_loop :: "str \<Rightarrow> (exn + str) list \<Rightarrow> exn + str" where
  "pdf_pages_loop acc [] = Inr acc"
| "pdf_pages_loop acc (p # ps) =
     (case p of
        Inl e \<Rightarrow> Inl e
      | Inr page_text \<Rightarrow>
          if page_text \<noteq> [] then pdf_pages_loop (acc @ page_text @ [NL]) ps
          else pdf_pages_loop acc ps)"

text \<open>The body of the \<open>try\<close> block.\<close>

definition pdf_try :: "exn + (exn + str) list \<Rightarrow> exn + str" where
  "pdf_try reader =
     (case reader of
        Inl e \<Rightarrow> Inl e
      | Inr pages \<Rightarrow>
          (case pdf_pages_loop [] pages of
             Inl e \<Rightarrow> Inl e
           | Inr t \<Rightarrow> if strip t = [] then Inr [] else Inr t))"

definition extract_from_pdf :: "exn + (exn + str) list \<Rightarrow> exn + str" where
  "extract_from_pdf reader =
     (case pdf_try reader of
        Inl e \<Rightarrow> Inl (Raised Exception (cps ''PDF extraction failed: '' @ message_of e))
      | Inr t \<Rightarrow> Inr t)"

subsection \<open>\<open>_extract_from_docx\<close>\<close>

definition docx_try :: "exn + str list \<Rightarrow> exn + str" where
  "docx_try document =
     (case document of
        Inl e \<Rightarrow> Inl e
      | Inr paragraphs \<Rightarrow>
          (let full_text = join [NL] (filter (\<lambda>p. strip p \<noteq> []) paragraphs)
           in if strip full_text = [] then Inr [] else Inr full_text))"

definition extract_from_docx :: "exn + str list \<Rightarrow> exn + str" where
  "extract_from_docx document =
     (case docx_try document of
        Inl e \<Rightarrow> Inl (Raised Exception (cps ''DOCX extraction failed: '' @ message_of e))
      | Inr t \<Rightarrow> Inr t)"

subsection \<open>\<open>extract_text\<close>\<close>

definition extract_text :: "world \<Rightarrow> ucd \<Rightarrow> processor \<Rightarrow> str \<Rightarrow> bool \<Rightarrow> exn + str" where
  "extract_text w u self file_path clean =
     (if \<not> path_exists w file_path
      then Inl (Raised FileNotFoundError (cps ''File not found: '' @ file_path))
      else
        let file_extension = ucd_lower u (path_suffix w file_path) in
        if file_extension \<notin> set (supported_formats self)
        then Inl (Raised ValueError (cps ''Unsupported file format: '' @ file_extension))
        else
          (case (if file_extension = cps ''.pdf'' then extract_from_pdf (pdf_reader w file_path)
                 else if file_extension \<in> set [cps ''.docx'', cps ''.doc'']
                 then extract_from_docx (docx_document w file_path)
                 else Inl (Raised ValueError (cps ''Handler not implemented for: '' @ file_extension)))
           of Inl e \<Rightarrow> Inl e
            | Inr t \<Rightarrow>
                if clean \<and> normalize_text self
                then Inr (normalize (ucd_nfkc u) (ucd_isC u) t)
                else Inr t))"

subsection \<open>\<open>validate_contract_text\<close>\<close>

text \<open>\<open>str(n)\<close> of an integer, for the f-string of the first issue.\<close>

fun digits :: "nat \<Rightarrow> str" where
  "digits n = (if n < 10 then [48 + n] else digits (n div 10) @ [48 + n mod 10])"

declare digits.simps [simp del]

definition str_of_int :: "int \<Rightarrow> str" where
  "str_of_int i = (if i < 0 then 45 # digits (nat (- i)) else digits (nat i))"

text \<open>
  The result dictionary. The key \<open>found_keywords\<close> is set on the last path only:
  \<open>None\<close> is its absence.
\<close>

record validation =
  is_valid :: bool
  length_ok :: bool
  has_contract_keywords :: bool
  issues :: "str list"
  found_keywords :: "str list option"

definition contract_keywords :: "str list" where
  "contract_keywords =
     [cps ''agreement'', cps ''contract'', cps ''party'', cps ''parties'',
      cps ''terms'', cps ''conditions'', cps ''hereby'', cps ''whereas'',
      cps ''signed'', cps ''effective'', cps ''termination'']"

text \<open>\<open>kw in text_lower\<close> is \<open>sublist kw text_lower\<close>: a contiguous occurrence.\<close>

definition validate_contract_text :: "(str \<Rightarrow> str) \<Rightarrow> str \<Rightarrow> int \<Rightarrow> validation" where
  "validate_contract_text lower t min_length =
     (if int (length t) < min_length
      then \<lparr>is_valid = False, length_ok = False, has_contract_keywords = False,
            issues = [cps ''Text too short ('' @ digits (length t) @ cps '' chars, need ''
                        @ str_of_int min_length @ cps '')''],
            found_keywords = None\<rparr>
      else
        let text_lower = lower t;
            found = filter (\<lambda>kw. sublist kw text_lower) contract_keywords
        in if length found < 2
           then \<lparr>is_valid = False, length_ok = True, has_contract_keywords = False,
                 issues = [cps ''Not enough contract keywords found''],
                 found_keywords = None\<rparr>
           else \<lparr>is_valid = True, length_ok = True, has_contract_keywords = True,
                 issues = [], found_keywords = Some found\<rparr>)"

definition min_length_default :: int where
  "min_length_default = 100"

subsection \<open>\<open>get_text_stats\<close>\<close>

text \<open>\<open>text.split()\<close>: the maximal runs of characters that are not whitespace.\<close>

fun split_ws :: "str \<Rightarrow> str \<Rightarrow> str list" where
  "split_ws cur [] = (if cur = [] then [] else [cur])"
| "split_ws cur (c # r) =
     (if py_isspace c then (if cur = [] then split_ws [] r else cur # split_ws [] r)
      else split_ws (cur @ [c]) r)"

text \<open>
  \<open>re.split(r'[.!?]+', text)\<close>: the pieces between maximal runs of the three marks. The
  flag says that the last character read belongs to such a run.
\<close>

definition is_mark :: "cp \<Rightarrow> bool" where
  "is_mark c \<longleftrightarrow> c = 46 \<or> c = 33 \<or> c = 63"

fun split_marks :: "str \<Rightarrow> bool \<Rightarrow> str \<Rightarrow> str list" where
  "split_marks cur in_run [] = [cur]"
| "split_marks cur in_run (c # r) =
     (if is_mark c then (if in_run then split_marks [] True r else cur # split_marks [] True r)
      else split_marks (cur @ [c]) False r)"

text \<open>\<open>text.split('\n\n')\<close>\<close>

fun split_blank :: "str \<Rightarrow> str \<Rightarrow> str list" where
  "split_blank cur (x # y # r) =
     (if x = NL \<and> y = NL then cur # split_blank [] r else split_blank (cur @ [x]) (y # r))"
| "split_blank cur t = [cur @ t]"

text \<open>
  The two averages are either the integer \<open>0\<close> or a float. \<open>a / b\<close> of two integers
  raises \<open>ZeroDivisionError\<close> for \<open>b = 0\<close>; otherwise the float nearest to the quotient is
  rounded to one decimal, which the parameter \<open>round1\<close> computes from the exact quotient.
\<close>

datatype number = IntNum int | FloatNum rat

definition truediv :: "nat \<Rightarrow> nat \<Rightarrow> exn + rat" where
  "truediv a b =
     (if b = 0 then Inl (Raised ZeroDivisionError (cps ''division by zero''))
      else Inr (of_nat a / of_nat b))"

record text_stats =
  characters :: nat
  words :: nat
  sentences :: nat
  paragraphs :: nat
  avg_word_length :: number
  avg_sentence_length :: number

definition stats_words :: "str \<Rightarrow> str list" where
  "stats_words t = split_ws [] t"

definition stats_sentences :: "str \<Rightarrow> str list" where
  "stats_sentences t = filter (\<lambda>s. strip s \<noteq> []) (split_marks [] False t)"

definition stats_paragraphs :: "str \<Rightarrow> str list" where
  "stats_paragraphs t = filter (\<lambda>p. strip p \<noteq> []) (split_blank [] t)"

text \<open>\<open>round(a / b, 1) if xs else 0\<close>\<close>

definition average :: "(rat \<Rightarrow> rat) \<Rightarrow> bool \<Rightarrow> nat \<Rightarrow> nat \<Rightarrow> exn + number" where
  "average round1 nonempty a b =
     (if nonempty
      then (case truediv a b of Inl e \<Rightarrow> Inl e | Inr q \<Rightarrow> Inr (FloatNum (round1 q)))
      else Inr (IntNum 0))"

definition get_text_stats :: "(rat \<Rightarrow> rat) \<Rightarrow> str \<Rightarrow> exn + text_stats" where
  "get_text_stats round1 t =
     (let ws = stats_words t; ss = stats_sentences t; ps = stats_paragraphs t in
      case average round1 (ws \<noteq> []) (sum_list (map length ws)) (length ws) of
        Inl e \<Rightarrow> Inl e
      | Inr awl \<Rightarrow>
          (case average round1 (ss \<noteq> []) (length ws) (length ss) of
             Inl e \<Rightarrow> Inl e
           | Inr asl \<Rightarrow>
               Inr \<lparr>characters = length t, words = length ws, sentences = length ss,
                    paragraphs = length ps, avg_word_length = awl, avg_sentence_length = asl\<rparr>))"

subsection \<open>Concrete surroundings for the examples\<close>

text \<open>
  A file system with four files: \<open>deal.PDF\<close>, a three-page document whose second page
  has no text; \<open>scan.pdf\<close> and \<open>memo.docx\<close>, which the libraries cannot open; and
  \<open>notes.txt\<close>.
\<close>

definition world_sample :: world where
  "world_sample =
     \<lparr>path_exists = (\<lambda>p. p \<in> set [cps ''deal.PDF'', cps ''scan.pdf'', cps ''memo.docx'',
                                     cps ''notes.txt'']),
      path_suffix = (\<lambda>p. if p = cps ''deal.PDF'' then cps ''.PDF''
                         else if p = cps ''scan.pdf'' then cps ''.pdf''
                         else if p = cps ''memo.docx'' then cps ''.docx''
                         else if p = cps ''notes.txt'' then cps ''.txt'' else []),
      pdf_reader = (\<lambda>p. if p = cps ''deal.PDF''
                        then Inr [Inr (cps ''Lease  terms''), Inr [], Inr (cps ''Signed'')]
                        else Inl (Raised (Library (cps ''PdfReadError''))
                                    (cps ''EOF marker not found''))),
      docx_document = (\<lambda>p. Inl (Raised (Library (cps ''PackageNotFoundError''))
                                    (cps ''Package not found'')))\<rparr>"

text \<open>
  \<open>round(x, 1)\<close> on the quotients of the examples: the nearest multiple of one tenth of
  the exact quotient, and of two nearest ones the one with the even digit, as Python
  rounds a quotient that is a float itself (\<open>0.25\<close> to \<open>0.2\<close>, \<open>1.25\<close> to \<open>1.2\<close>).
\<close>

definition round_tenth :: "rat \<Rightarrow> rat" where
  "round_tenth q =
     (let n = \<lfloor>q * 10\<rfloor>; r = q * 10 - of_int n
      in of_int (if r < 1 / 2 \<or> (r = 1 / 2 \<and> even n) then n else n + 1) / 10)"

section \<open>analyzer.py: data\<close>

datatype RiskLevel = LOW | MEDIUM | HIGH

fun RiskLevel_value :: "RiskLevel \<Rightarrow> str" where
  "RiskLevel_value LOW = cps ''low''"
| "RiskLevel_value MEDIUM = cps ''medium''"
| "RiskLevel_value HIGH = cps ''high''"

text \<open>\<open>RiskLevel._value2member_map_\<close>\<close>

definition value2member_map :: "(str \<times> RiskLevel) list" where
  "value2member_map = [(cps ''low'', LOW), (cps ''medium'', MEDIUM), (cps ''high'', HIGH)]"

text \<open>\<open>RiskLevel(v)\<close>: the member with that value, or \<open>ValueError\<close>.\<close>

definition RiskLevel_call :: "str \<Rightarrow> exn + RiskLevel" where
  "RiskLevel_call v =
     (case map_of value2member_map v of
        Some r \<Rightarrow> Inr r
      | None \<Rightarrow> Inl (Raised ValueError (v @ cps '' is not a valid RiskLevel'')))"

text \<open>
  The values \<open>json.loads\<close> produces. A dictionary is the list of its items; its keys are
  distinct, so \<open>map_of\<close> is the lookup.
\<close>

datatype pyval =
  PNone | PBool bool | PInt int | PFloat rat | PStr str
  | PList "pyval list" | PDict "(str \<times> pyval) list"

fun type_name :: "pyval \<Rightarrow> str" where
  "type_name PNone = cps ''NoneType''"
| "type_name (PBool b) = cps ''bool''"
| "type_name (PInt i) = cps ''int''"
| "type_name (PFloat q) = cps ''float''"
| "type_name (PStr s) = cps ''str''"
| "type_name (PList l) = cps ''list''"
| "type_name (PDict d) = cps ''dict''"

text \<open>The truth value of \<open>v\<close> in \<open>v or default\<close>.\<close>

fun truthy :: "pyval \<Rightarrow> bool" where
  "truthy PNone = False"
| "truthy (PBool b) = b"
| "truthy (PInt i) = (i \<noteq> 0)"
| "truthy (PFloat q) = (q \<noteq> 0)"
| "truthy (PStr s) = (s \<noteq> [])"
| "truthy (PList l) = (l \<noteq> [])"
| "truthy (PDict d) = (d \<noteq> [])"

definition no_attribute :: "pyval \<Rightarrow> str \<Rightarrow> exn" where
  "no_attribute v attr =
     Raised AttributeError
       ([APOSTROPHE] @ type_name v @ [APOSTROPHE] @ cps '' object has no attribute ''
          @ [APOSTROPHE] @ attr @ [APOSTROPHE])"

text \<open>\<open>v.get(key, default)\<close>: only a dictionary has the method.\<close>

fun dict_get :: "pyval \<Rightarrow> str \<Rightarrow> pyval \<Rightarrow> exn + pyval" where
  "dict_get (PDict d) key dflt =
     Inr (case map_of d key of None \<Rightarrow> dflt | Some v \<Rightarrow> v)"
| "dict_get v key dflt = Inl (no_attribute v (cps ''get''))"

text \<open>\<open>v.lower()\<close>: only a string has the method.\<close>

fun py_lower :: "(str \<Rightarrow> str) \<Rightarrow> pyval \<Rightarrow> exn + str" where
  "py_lower lower (PStr s) = Inr (lower s)"
| "py_lower lower v = Inl (no_attribute v (cps ''lower''))"

text \<open>
  \<open>for x in v\<close>: the elements of a list, the characters of a string, the keys of a
  dictionary; anything else is not iterable.
\<close>

fun py_iter :: "pyval \<Rightarrow> exn + pyval list" where
  "py_iter (PList l) = Inr l"
| "py_iter (PStr s) = Inr (map (\<lambda>c. PStr [c]) s)"
| "py_iter (PDict d) = Inr (map (\<lambda>kv. PStr (fst kv)) d)"
| "py_iter v =
     Inl (Raised TypeError ([APOSTROPHE] @ type_name v @ [APOSTROPHE] @ cps '' object is not iterable''))"

text \<open>Sequencing of steps that may raise.\<close>

fun try_bind :: "exn + 'a \<Rightarrow> ('a \<Rightarrow> exn + 'b) \<Rightarrow> exn + 'b" where
  "try_bind (Inl e) f = Inl e"
| "try_bind (Inr x) f = f x"

text \<open>
  The dataclasses. The annotations of the string fields are not enforced: a field holds
  whatever value the parsed dictionary had under its key.
\<close>

record RedFlag =
  clause_text :: pyval
  risk_type :: pyval
  explanation :: pyval
  why_risky :: pyval
  suggested_alternative :: pyval
  severity :: RiskLevel

record RiskScore =
  financial_risk :: RiskLevel
  legal_exposure :: RiskLevel
  fairness :: RiskLevel
  missing_clauses :: RiskLevel
  overall_score :: RiskLevel

record ContractAnalysis =
  summary :: pyval
  key_terms :: pyval
  red_flags :: "RedFlag list"
  risk_score :: RiskScore
  recommendations :: pyval
  processing_time :: rat

section \<open>analyzer.py: \<open>_create_analysis_object\<close>\<close>

text \<open>
  \<open>(d.get(key, default) or default).lower()\<close>, then
  \<open>RiskLevel(raw if raw in RiskLevel._value2member_map_ else default)\<close>: the expression
  of the red-flag loop and of \<open>parse_risk_field\<close>.
\<close>

definition coerce_risk :: "(str \<Rightarrow> str) \<Rightarrow> pyval \<Rightarrow> str \<Rightarrow> str \<Rightarrow> exn + RiskLevel" where
  "coerce_risk lower d key dflt =
     try_bind (dict_get d key (PStr dflt)) (\<lambda>v.
     try_bind (py_lower lower (if truthy v then v else PStr dflt)) (\<lambda>raw.
     RiskLevel_call (if raw \<in> set (map fst value2member_map) then raw else dflt)))"

text \<open>The body of the \<open>try\<close> block of the loop, up to the constructed \<open>RedFlag\<close>.\<close>

definition make_red_flag :: "(str \<Rightarrow> str) \<Rightarrow> pyval \<Rightarrow> exn + RedFlag" where
  "make_red_flag lower flag_data =
     try_bind (coerce_risk lower flag_data (cps ''severity'') (cps ''medium'')) (\<lambda>sev.
     try_bind (dict_get flag_data (cps ''clause_text'') (PStr [])) (\<lambda>ct.
     try_bind (dict_get flag_data (cps ''risk_type'') (PStr [])) (\<lambda>rt.
     try_bind (dict_get flag_data (cps ''explanation'') (PStr [])) (\<lambda>ex.
     try_bind (dict_get flag_data (cps ''why_risky'') (PStr [])) (\<lambda>wr.
     try_bind (dict_get flag_data (cps ''suggested_alternative'') (PStr [])) (\<lambda>sa.
     Inr \<lparr>clause_text = ct, risk_type = rt, explanation = ex, why_risky = wr,
          suggested_alternative = sa, severity = sev\<rparr>))))))"

text \<open>
  The loop: \<open>except Exception: continue\<close> drops the entry whose body raised. The first
  argument is the list built so far.
\<close>

fun red_flags_loop :: "(str \<Rightarrow> str) \<Rightarrow> RedFlag list \<Rightarrow> pyval list \<Rightarrow> RedFlag list" where
  "red_flags_loop lower acc [] = acc"
| "red_flags_loop lower acc (flag_data # r) =
     (case make_red_flag lower flag_data of
        Inl e \<Rightarrow> red_flags_loop lower acc r
      | Inr flag \<Rightarrow> red_flags_loop lower (acc @ [flag]) r)"

definition parse_risk_field :: "(str \<Rightarrow> str) \<Rightarrow> pyval \<Rightarrow> str \<Rightarrow> str \<Rightarrow> exn + RiskLevel" where
  "parse_risk_field lower risk_data key dflt = coerce_risk lower risk_data key dflt"

definition create_analysis_object :: "(str \<Rightarrow> str) \<Rightarrow> pyval \<Rightarrow> exn + ContractAnalysis" where
  "create_analysis_object lower data =
     try_bind (dict_get data (cps ''red_flags'') (PList [])) (\<lambda>rf.
     try_bind (py_iter rf) (\<lambda>entries.
     try_bind (dict_get data (cps ''risk_score'') (PDict [])) (\<lambda>risk_data.
     try_bind (parse_risk_field lower risk_data (cps ''financial_risk'') (cps ''medium'')) (\<lambda>r1.
     try_bind (parse_risk_field lower risk_data (cps ''legal_exposure'') (cps ''medium'')) (\<lambda>r2.
     try_bind (parse_risk_field lower risk_data (cps ''fairness'') (cps ''medium'')) (\<lambda>r3.
     try_bind (parse_risk_field lower risk_data (cps ''missing_clauses'') (cps ''medium'')) (\<lambda>r4.
     try_bind (parse_risk_field lower risk_data (cps ''overall_score'') (cps ''medium'')) (\<lambda>r5.
     try_bind (dict_get data (cps ''summary'') (PStr [])) (\<lambda>s.
     try_bind (dict_get data (cps ''key_terms'') (PDict [])) (\<lambda>kt.
     try_bind (dict_get data (cps ''recommendations'') (PList [])) (\<lambda>rc.
     Inr \<lparr>summary = s, key_terms = kt,
          red_flags = red_flags_loop lower [] entries,
          risk_score = \<lparr>financial_risk = r1, legal_exposure = r2, fairness = r3,
                         missing_clauses = r4, overall_score = r5\<rparr>,
          recommendations = rc, processing_time = 0\<rparr>)))))))))))"

subsection \<open>Concrete entries for the examples\<close>

definition urgent_entry :: "(str \<times> pyval) list" where
  "urgent_entry =
     [(cps ''severity'', PStr (cps ''URGENT'')), (cps ''clause_text'', PStr (cps ''Pay now''))]"

definition bare_entry :: "(str \<times> pyval) list" where
  "bare_entry = [(cps ''risk_type'', PStr (cps ''Penalty''))]"

section \<open>analyzer.py: the response and \<open>_parse_response\<close>\<close>

text \<open>
  What the two extraction functions observe of the response object. \<open>output_text\<close> is
  the attribute of that name, empty when it is absent, \<open>None\<close> or empty. \<open>output_items\<close> is the
  list the fallback iterates, empty when there is none or when reaching it raised (the
  function then returns the empty string, as it does for an empty list). An item that
  is a dictionary is given by the blocks of its \<open>content\<close> list and by its \<open>text\<close> entry;
  an item that is not a dictionary contributes nothing. \<open>raw_dump\<close> is
  \<open>json.dumps(response.body or response.raw)\<close>, empty when neither attribute holds a
  value or the value cannot be serialised.
\<close>

datatype content_block = TextBlock str | ContentBlock str | OtherBlock

datatype output_item = DictItem "content_block list" "str option" | ObjectItem

record response =
  output_text :: str
  output_items :: "output_item list"
  raw_dump :: str

fun block_parts :: "content_block \<Rightarrow> str list" where
  "block_parts (TextBlock t) = [t]"
| "block_parts (ContentBlock t) = [t]"
| "block_parts OtherBlock = []"

fun item_parts :: "output_item \<Rightarrow> str list" where
  "item_parts (DictItem content_list t) =
     concat (map block_parts content_list) @ (case t of None \<Rightarrow> [] | Some x \<Rightarrow> [x])"
| "item_parts ObjectItem = []"

definition extract_text_from_response :: "response \<Rightarrow> str" where
  "extract_text_from_response r =
     (if output_text r \<noteq> [] then output_text r
      else strip (join [NL] (concat (map item_parts (output_items r)))))"

subsection \<open>String methods\<close>

text \<open>
  \<open>t.split(sep)\<close> for a separator that is not empty: the pieces between the occurrences
  of \<open>sep\<close>, found from the left and not overlapping.
\<close>

function split_on :: "str \<Rightarrow> str \<Rightarrow> str \<Rightarrow> str list" where
  "split_on sep cur [] = [cur]"
| "split_on sep cur (c # r) =
     (if prefix sep (c # r) then cur # split_on sep [] (drop (length sep - 1) r)
      else split_on sep (cur @ [c]) r)"
  by pat_completeness auto
termination
  by (relation "measure (\<lambda>(sep, cur, t). length t)") auto

definition FENCE :: str where "FENCE = [96, 96, 96]"
definition LBRACE :: cp where "LBRACE = 123"
definition RBRACE :: cp where "RBRACE = 125"

text \<open>\<open>t.find(c)\<close> and \<open>t.rfind(c)\<close> for a single character: an index, or \<open>-1\<close>.\<close>

definition find_char :: "cp \<Rightarrow> str \<Rightarrow> int" where
  "find_char c t = (if c \<in> set t then int (length (takeWhile (\<lambda>x. x \<noteq> c) t)) else - 1)"

definition rfind_char :: "cp \<Rightarrow> str \<Rightarrow> int" where
  "rfind_char c t =
     (if c \<in> set t then int (length t) - 1 - int (length (takeWhile (\<lambda>x. x \<noteq> c) (rev t)))
      else - 1)"

text \<open>\<open>t[start:stop]\<close> for indices that are not negative.\<close>

definition slice :: "str \<Rightarrow> int \<Rightarrow> int \<Rightarrow> str" where
  "slice t start stop = take (nat stop - nat start) (drop (nat start) t)"

subsection \<open>The parsing steps\<close>

text \<open>
  The code-fence step: if the stripped text starts with the fence, the first piece
  between fences that starts with an opening brace once stripped replaces the text; if
  there is no such piece the text stays.
\<close>

definition strip_fence :: "str \<Rightarrow> str" where
  "strip_fence text_stripped =
     (if prefix FENCE text_stripped
      then (case find (\<lambda>p. prefix [LBRACE] (strip p)) (split_on FENCE [] text_stripped) of
              Some p \<Rightarrow> strip p
            | None \<Rightarrow> text_stripped)
      else text_stripped)"

definition no_output :: exn where
  "no_output = Raised RuntimeError (cps ''AI returned no output.'')"

definition parse_failed :: exn where
  "parse_failed = Raised RuntimeError (cps ''Failed to parse AI response as JSON.'')"

text \<open>
  \<open>json.loads\<close> is the standard library's decoder and a parameter: \<open>loads t = Inr v\<close>
  when it returns \<open>v\<close>, \<open>Inl e\<close> when it raises \<open>e\<close>. It raises \<open>JSONDecodeError\<close> on a
  malformed document, and also \<open>RecursionError\<close> on a document nested too deeply and
  \<open>ValueError\<close> on an integer with more digits than the interpreter converts. The two
  handlers of \<open>_parse_response\<close> catch \<open>JSONDecodeError\<close> only, so any other exception
  of the decoder leaves the function. The part of \<open>_parse_response\<close> from the stripped
  text on:
\<close>

definition parse_json_text :: "(str \<Rightarrow> exn + pyval) \<Rightarrow> str \<Rightarrow> exn + pyval" where
  "parse_json_text loads text_stripped =
     (case loads text_stripped of
        Inr data \<Rightarrow> Inr data
      | Inl e \<Rightarrow>
          if class_of e \<noteq> JSONDecodeError then Inl e
          else
            (let start = find_char LBRACE text_stripped;
                 endp = rfind_char RBRACE text_stripped
             in if start \<noteq> - 1 \<and> endp \<noteq> - 1 \<and> endp > start
                then (case loads (slice text_stripped start (endp + 1)) of
                        Inr data \<Rightarrow> Inr data
                      | Inl e2 \<Rightarrow>
                          if class_of e2 \<noteq> JSONDecodeError then Inl e2 else Inl parse_failed)
                else Inl parse_failed))"

text \<open>The text the parser works on: the extracted text, or else the dump of the body.\<close>

definition response_text :: "response \<Rightarrow> str" where
  "response_text r =
     (let t = extract_text_from_response r in if t = [] then raw_dump r else t)"

definition parse_response :: "(str \<Rightarrow> exn + pyval) \<Rightarrow> response \<Rightarrow> exn + pyval" where
  "parse_response loads r =
     (let t = response_text r in
      if t = [] then Inl no_output
      else parse_json_text loads (strip_fence (strip t)))"

section \<open>analyzer.py: \<open>analyze\<close>\<close>

definition build_system_prompt :: str where
  "build_system_prompt =
     cps ''You are an expert contract reviewer and legal analyst specializing in identifying risks, ''
     @ cps ''unfair terms, and red flags in legal agreements. Use plain English and provide actionable suggestions.''"

definition prompt_template :: "str list" where
  "prompt_template =
    [[],
     cps ''Provide your analysis in the following JSON format (must be valid JSON):'',
     [],
     cps ''{'',
     cps ''    \"summary\": \"Brief 2-3 sentence summary of what this contract is about and its main purpose\",'',
     cps ''    \"key_terms\": {'',
     cps ''        \"parties\": \"Who are the parties involved\",'',
     cps ''        \"effective_date\": \"When does it start (or 'Not specified')\",'',
     cps ''        \"duration\": \"How long does it last\",'',
     cps ''        \"payment_terms\": \"Payment structure and amounts (or 'Not specified')\",'',
     cps ''        \"main_obligations\": \"Key responsibilities of each party\",'',
     cps ''        \"termination\": \"How can it be ended\"'',
     cps ''    },'',
     cps ''    \"red_flags\": ['',
     cps ''        {'',
     cps ''            \"clause_text\": \"Exact text of the problematic clause (max 100 words)\",'',
     cps ''            \"risk_type\": \"Type of risk (e.g., 'Hidden Penalty', 'Auto-Renewal Trap', 'One-Sided Obligation')\",'',
     cps ''            \"explanation\": \"What this clause means in simple English (2-3 sentences)\",'',
     cps ''            \"why_risky\": \"Why this is dangerous or unfair to the user (2-3 sentences)\",'',
     cps ''            \"suggested_alternative\": \"Better, fairer wording for this clause\",'',
     cps ''            \"severity\": \"high/medium/low\"'',
     cps ''        }'',
     cps ''    ],'',
     cps ''    \"risk_score\": {'',
     cps ''        \"financial_risk\": \"high/medium/low\",'',
     cps ''        \"legal_exposure\": \"high/medium/low\",'',
     cps ''        \"fairness\": \"high/medium/low\",'',
     cps ''        \"missing_clauses\": \"high/medium/low\",'',
     cps ''        \"overall_score\": \"high/medium/low\"'',
     cps ''    },'',
     cps ''    \"recommendations\": ['',
     cps ''        \"Specific action the user should take (e.g., 'Negotiate a 30-day cancellation window')\"'',
     cps ''    ]'',
     cps ''}'',
     [],
     cps ''CRITICAL: Return ONLY valid JSON. No markdown, no code blocks, no explanations outside the JSON.'',
     []]"

definition build_user_prompt :: "str \<Rightarrow> str" where
  "build_user_prompt contract_text =
     join [NL]
       ([cps ''Analyze this contract and provide a comprehensive risk assessment.'',
         [],
         cps ''CONTRACT TEXT:'',
         contract_text] @ prompt_template)"

text \<open>
  The request of \<open>client.responses.create\<close> and the analyzer object. The remote client is
  the function \<open>responses_create\<close>: it returns a response or raises.
\<close>

record request =
  model :: str
  system_content :: str
  user_content :: str
  max_output_tokens :: nat

record analyzer =
  responses_create :: "request \<Rightarrow> exn + response"
  model_name :: str
  timeout_seconds :: nat

definition call_gpt :: "analyzer \<Rightarrow> str \<Rightarrow> str \<Rightarrow> exn + response" where
  "call_gpt self system_prompt user_prompt =
     (case responses_create self
             \<lparr>model = model_name self, system_content = system_prompt,
              user_content = user_prompt, max_output_tokens = 1200\<rparr> of
        Inr r \<Rightarrow> Inr r
      | Inl e \<Rightarrow> Inl (Raised RuntimeError (cps ''AI analysis failed: '' @ message_of e)))"

text \<open>
  \<open>analyze\<close>; the two readings of the clock are the arguments \<open>start_time\<close> and
  \<open>end_time\<close>.
\<close>

definition analyze ::
  "analyzer \<Rightarrow> (str \<Rightarrow> exn + pyval) \<Rightarrow> (str \<Rightarrow> str) \<Rightarrow> rat \<Rightarrow> rat \<Rightarrow> str \<Rightarrow> exn + ContractAnalysis" where
  "analyze self loads lower start_time end_time contract_text =
     try_bind (call_gpt self build_system_prompt (build_user_prompt contract_text)) (\<lambda>raw_response.
     try_bind (parse_response loads raw_response) (\<lambda>parsed.
     try_bind (create_analysis_object lower parsed) (\<lambda>analysis.
     Inr (analysis\<lparr>processing_time := end_time - start_time\<rparr>))))"

subsection \<open>Concrete surroundings for the examples\<close>

text \<open>
  \<open>json.loads\<close> on the documents used in the examples. It returns the value of four
  documents. On a thousand opening brackets it raises \<open>RecursionError\<close>, and on an integer
  of 4301 digits \<open>ValueError\<close> (the interpreter converts 4300 digits at most). On every other
  string of the examples it raises \<open>JSONDecodeError\<close> at the first character, as this
  table does.
\<close>

definition LBRACKET :: cp where "LBRACKET = 91"
definition DIGIT_ONE :: cp where "DIGIT_ONE = 49"

definition deep_text :: str where "deep_text = replicate 1000 LBRACKET"
definition long_number :: str where "long_number = replicate 4301 DIGIT_ONE"

definition json_loads_sample :: "str \<Rightarrow> exn + pyval" where
  "json_loads_sample t =
     (if t = cps ''[]'' then Inr (PList [])
      else if t = cps ''{\"summary\":\"x\"}''
      then Inr (PDict [(cps ''summary'', PStr (cps ''x''))])
      else if t = cps ''{\"summary\":\"ok\",\"red_flags\":[]}''
      then Inr (PDict [(cps ''summary'', PStr (cps ''ok'')), (cps ''red_flags'', PList [])])
      else if t = cps ''{\"risk_score\":{\"fairness\":5}}''
      then Inr (PDict [(cps ''risk_score'', PDict [(cps ''fairness'', PInt 5)])])
      else if t = deep_text
      then Inl (Raised RecursionError
             (cps ''maximum recursion depth exceeded while decoding a JSON array from a unicode string''))
      else if t = long_number
      then Inl (Raised ValueError
             (cps ''Exceeds the limit (4300 digits) for integer string conversion: value has 4301 digits; use sys.set_int_max_str_digits() to increase the limit''))
      else Inl (Raised JSONDecodeError (cps ''Expecting value: line 1 column 1 (char 0)'')))"

definition text_response :: "str \<Rightarrow> response" where
  "text_response t = \<lparr>output_text = t, output_items = [], raw_dump = []\<rparr>"

text \<open>A client whose call times out, and clients that answer with a fixed text.\<close>

definition timeout_analyzer :: analyzer where
  "timeout_analyzer =
     \<lparr>responses_create =
        (\<lambda>req. Inl (Raised (Library (cps ''APITimeoutError'')) (cps ''Request timed out.''))),
      model_name = cps ''gpt-4.1'', timeout_seconds = 60\<rparr>"

definition answering_analyzer :: "str \<Rightarrow> analyzer" where
  "answering_analyzer t =
     \<lparr>responses_create = (\<lambda>req. Inr (text_response t)),
      model_name = cps ''gpt-4.1'', timeout_seconds = 60\<rparr>"

section \<open>analyzer.py: \<open>to_dict\<close> on a store of objects\<close>

text \<open>
  \<open>to_dict\<close> copies the analysis with \<open>dataclasses.asdict\<close> and then assigns into the copy,
  so whether it changes the analysis depends on which objects are shared. Objects live
  in a store: dataclass instances, lists and dictionaries are stored at addresses and
  can be written; strings, numbers, \<open>None\<close> and the members of \<open>RiskLevel\<close> are values. A
  new object gets the next unused address.
\<close>

type_synonym addr = nat

datatype hval =
  HNone | HBool bool | HInt int | HFloat rat | HStr str | HEnum RiskLevel | HRef addr

datatype hobj =
  HInstance "(str \<times> hval) list" | HList "hval list" | HDict "(str \<times> hval) list"

record heap =
  cells :: "addr \<Rightarrow> hobj option"
  next_addr :: addr

definition alloc :: "heap \<Rightarrow> hobj \<Rightarrow> heap \<times> addr" where
  "alloc h ob =
     (h\<lparr>cells := (cells h)(next_addr h \<mapsto> ob), next_addr := Suc (next_addr h)\<rparr>, next_addr h)"

definition store_at :: "heap \<Rightarrow> addr \<Rightarrow> hobj \<Rightarrow> heap" where
  "store_at h q ob = h\<lparr>cells := (cells h)(q \<mapsto> ob)\<rparr>"

text \<open>\<open>d[key] = v\<close>: an existing key keeps its place, a new key goes to the end.\<close>

fun dict_set :: "(str \<times> hval) list \<Rightarrow> str \<Rightarrow> hval \<Rightarrow> (str \<times> hval) list" where
  "dict_set [] key v = [(key, v)]"
| "dict_set (kv # d) key v = (if fst kv = key then (key, v) # d else kv # dict_set d key v)"

subsection \<open>\<open>dataclasses.asdict\<close>\<close>

text \<open>
  \<open>_asdict_inner\<close> of the standard library: a dataclass instance becomes a new dictionary
  of its converted fields, a list a new list and a dictionary a new dictionary of the
  converted elements; any other value is copied with \<open>copy.deepcopy\<close>, which returns a
  string, a number, \<open>None\<close> and an enumeration member as they are. The first argument
  bounds the depth of the recursion, as the interpreter's recursion limit does; \<open>None\<close>
  is an exception.
\<close>

fun asdict_inner :: "nat \<Rightarrow> heap \<Rightarrow> hval \<Rightarrow> (heap \<times> hval) option"
  and copy_values :: "nat \<Rightarrow> heap \<Rightarrow> hval list \<Rightarrow> (heap \<times> hval list) option" where
  "asdict_inner 0 h v = None"
| "asdict_inner (Suc n) h (HRef p) =
     (case cells h p of
        None \<Rightarrow> None
      | Some (HInstance fs) \<Rightarrow>
          (case copy_values n h (map snd fs) of
             None \<Rightarrow> None
           | Some (h1, vs) \<Rightarrow>
               (case alloc h1 (HDict (zip (map fst fs) vs)) of (h2, q) \<Rightarrow> Some (h2, HRef q)))
      | Some (HList vs0) \<Rightarrow>
          (case copy_values n h vs0 of
             None \<Rightarrow> None
           | Some (h1, vs) \<Rightarrow> (case alloc h1 (HList vs) of (h2, q) \<Rightarrow> Some (h2, HRef q)))
      | Some (HDict kvs) \<Rightarrow>
          (case copy_values n h (map snd kvs) of
             None \<Rightarrow> None
           | Some (h1, vs) \<Rightarrow>
               (case alloc h1 (HDict (zip (map fst kvs) vs)) of (h2, q) \<Rightarrow> Some (h2, HRef q))))"
| "asdict_inner (Suc n) h v = Some (h, v)"
| "copy_values n h [] = Some (h, [])"
| "copy_values n h (v # vs) =
     (case asdict_inner n h v of
        None \<Rightarrow> None
      | Some (h1, v') \<Rightarrow>
          (case copy_values n h1 vs of
             None \<Rightarrow> None
           | Some (h2, vs') \<Rightarrow> Some (h2, v' # vs')))"

text \<open>\<open>asdict(obj)\<close> raises \<open>TypeError\<close> unless \<open>obj\<close> is a dataclass instance.\<close>

definition asdict :: "nat \<Rightarrow> heap \<Rightarrow> addr \<Rightarrow> (heap \<times> hval) option" where
  "asdict limit h p =
     (case cells h p of
        Some (HInstance fs) \<Rightarrow> asdict_inner limit h (HRef p)
      | _ \<Rightarrow> None)"

subsection \<open>\<open>to_dict\<close>\<close>

text \<open>\<open>getattr(v, "value", v)\<close>\<close>

fun value_or_self :: "hval \<Rightarrow> hval" where
  "value_or_self (HEnum e) = HStr (RiskLevel_value e)"
| "value_or_self v = v"

text \<open>
  The elements \<open>for flag in result.get("red_flags", [])\<close> runs over: none when the key is
  absent or the value is an empty string or dictionary, the elements of a list, the
  characters of a string and the keys of a dictionary. \<open>None\<close> is \<open>TypeError\<close>.
\<close>

definition flags_of :: "heap \<Rightarrow> (str \<times> hval) list \<Rightarrow> hval list option" where
  "flags_of h d =
     (case map_of d (cps ''red_flags'') of
        None \<Rightarrow> Some []
      | Some (HStr s) \<Rightarrow> Some (map (\<lambda>c. HStr [c]) s)
      | Some (HRef l) \<Rightarrow>
          (case cells h l of
             Some (HList vs) \<Rightarrow> Some vs
           | Some (HDict kvs) \<Rightarrow> Some (map (\<lambda>kv. HStr (fst kv)) kvs)
           | _ \<Rightarrow> None)
      | Some _ \<Rightarrow> None)"

text \<open>
  The body of the loop: \<open>flag.get("severity")\<close> needs a dictionary; a severity that is an
  enumeration member is replaced by its value in that dictionary.
\<close>

definition flag_step :: "heap \<Rightarrow> hval \<Rightarrow> heap option" where
  "flag_step h flag =
     (case flag of
        HRef f \<Rightarrow>
          (case cells h f of
             Some (HDict fd) \<Rightarrow>
               (case map_of fd (cps ''severity'') of
                  Some (HEnum e) \<Rightarrow>
                    Some (store_at h f (HDict (dict_set fd (cps ''severity'') (HStr (RiskLevel_value e)))))
                | _ \<Rightarrow> Some h)
           | _ \<Rightarrow> None)
      | _ \<Rightarrow> None)"

fun flags_loop :: "heap \<Rightarrow> hval list \<Rightarrow> heap option" where
  "flags_loop h [] = Some h"
| "flags_loop h (flag # r) =
     (case flag_step h flag of None \<Rightarrow> None | Some h1 \<Rightarrow> flags_loop h1 r)"

text \<open>
  \<open>to_dict\<close>: the copy, the new dictionary assigned to \<open>result["risk_score"]\<close>, the loop,
  and the result. \<open>None\<close> is an exception of any kind.
\<close>

definition to_dict :: "nat \<Rightarrow> heap \<Rightarrow> addr \<Rightarrow> (heap \<times> addr) option" where
  "to_dict limit h analysis =
     (case asdict limit h analysis of
        Some (h1, HRef r) \<Rightarrow>
          (case cells h1 r of
             Some (HDict d) \<Rightarrow>
               (case map_of d (cps ''risk_score'') of
                  Some (HRef q) \<Rightarrow>
                    (case cells h1 q of
                       Some (HDict kvs) \<Rightarrow>
                         (case alloc h1 (HDict (map (\<lambda>kv. (fst kv, value_or_self (snd kv))) kvs)) of
                            (h2, q') \<Rightarrow>
                              (let d' = dict_set d (cps ''risk_score'') (HRef q');
                                   h3 = store_at h2 r (HDict d')
                               in case flags_of h3 d' of
                                    None \<Rightarrow> None
                                  | Some flags \<Rightarrow>
                                      (case flags_loop h3 flags of
                                         None \<Rightarrow> None
                                       | Some h4 \<Rightarrow> Some (h4, r))))
                     | _ \<Rightarrow> None)
                | _ \<Rightarrow> None)
           | _ \<Rightarrow> None)
      | _ \<Rightarrow> None)"

subsection \<open>Properties of a store\<close>

text \<open>
  A store is well formed when nothing is stored at or above the next unused address.
  \<open>extends h h'\<close>: the objects of \<open>h\<close> are all in \<open>h'\<close> unchanged. \<open>fresh_part m h\<close>: the
  objects at the addresses from \<open>m\<close> on refer to such addresses only.
\<close>

fun obj_values :: "hobj \<Rightarrow> hval list" where
  "obj_values (HInstance fs) = map snd fs"
| "obj_values (HList vs) = vs"
| "obj_values (HDict kvs) = map snd kvs"

definition val_fresh :: "addr \<Rightarrow> hval \<Rightarrow> bool" where
  "val_fresh m v \<longleftrightarrow> (\<forall>q. v = HRef q \<longrightarrow> m \<le> q)"

definition fresh_part :: "addr \<Rightarrow> heap \<Rightarrow> bool" where
  "fresh_part m h \<longleftrightarrow>
     (\<forall>i ob. m \<le> i \<and> cells h i = Some ob \<longrightarrow> (\<forall>v\<in>set (obj_values ob). val_fresh m v))"

definition wf_heap :: "heap \<Rightarrow> bool" where
  "wf_heap h \<longleftrightarrow> (\<forall>i. next_addr h \<le> i \<longrightarrow> cells h i = None)"

definition extends :: "heap \<Rightarrow> heap \<Rightarrow> bool" where
  "extends h h' \<longleftrightarrow> next_addr h \<le> next_addr h' \<and> (\<forall>q<next_addr h. cells h' q = cells h q)"


subsection \<open>An analysis in the store and the value of a result\<close>

text \<open>
  How an analysis whose fields have their annotated types is laid out. Strings, numbers,
  booleans and \<open>None\<close> are values; \<open>key_terms\<close> is a dictionary object and
  \<open>recommendations\<close> a list object of such values; \<open>red_flags\<close> is a list object of
  references to \<open>RedFlag\<close> instances, and \<open>risk_score\<close> refers to a \<open>RiskScore\<close> instance.
\<close>

fun is_leaf :: "pyval \<Rightarrow> bool" where
  "is_leaf (PList l) = False"
| "is_leaf (PDict d) = False"
| "is_leaf v = True"

fun enc :: "pyval \<Rightarrow> hval" where
  "enc PNone = HNone"
| "enc (PBool b) = HBool b"
| "enc (PInt i) = HInt i"
| "enc (PFloat q) = HFloat q"
| "enc (PStr s) = HStr s"
| "enc (PList l) = HNone"
| "enc (PDict d) = HNone"

definition flag_fields :: "RedFlag \<Rightarrow> (str \<times> hval) list" where
  "flag_fields f =
     [(cps ''clause_text'', enc (clause_text f)),
      (cps ''risk_type'', enc (risk_type f)),
      (cps ''explanation'', enc (explanation f)),
      (cps ''why_risky'', enc (why_risky f)),
      (cps ''suggested_alternative'', enc (suggested_alternative f)),
      (cps ''severity'', HEnum (severity f))]"

definition score_fields :: "RiskScore \<Rightarrow> (str \<times> hval) list" where
  "score_fields s =
     [(cps ''financial_risk'', HEnum (financial_risk s)),
      (cps ''legal_exposure'', HEnum (legal_exposure s)),
      (cps ''fairness'', HEnum (fairness s)),
      (cps ''missing_clauses'', HEnum (missing_clauses s)),
      (cps ''overall_score'', HEnum (overall_score s))]"

definition typed_flag :: "RedFlag \<Rightarrow> bool" where
  "typed_flag f \<longleftrightarrow>
     is_leaf (clause_text f) \<and> is_leaf (risk_type f) \<and> is_leaf (explanation f)
     \<and> is_leaf (why_risky f) \<and> is_leaf (suggested_alternative f)"

text \<open>
  \<open>analysis_at h p kt fl rs rc qs kts recs a\<close>: the instance at \<open>p\<close> is the analysis \<open>a\<close>,
  with its \<open>key_terms\<close> (the items \<open>kts\<close>) at \<open>kt\<close>, its list of red flags at \<open>fl\<close>, the
  red flags themselves at the addresses \<open>qs\<close>, its risk score at \<open>rs\<close> and its
  recommendations (the elements \<open>recs\<close>) at \<open>rc\<close>.
\<close>

definition analysis_at ::
  "heap \<Rightarrow> addr \<Rightarrow> addr \<Rightarrow> addr \<Rightarrow> addr \<Rightarrow> addr \<Rightarrow> addr list
     \<Rightarrow> (str \<times> pyval) list \<Rightarrow> pyval list \<Rightarrow> ContractAnalysis \<Rightarrow> bool" where
  "analysis_at h p kt fl rs rc qs kts recs a \<longleftrightarrow>
     is_leaf (summary a) \<and> key_terms a = PDict kts \<and> list_all (\<lambda>kv. is_leaf (snd kv)) kts
     \<and> recommendations a = PList recs \<and> list_all is_leaf recs
     \<and> list_all typed_flag (red_flags a)
     \<and> cells h p = Some (HInstance
          [(cps ''summary'', enc (summary a)),
           (cps ''key_terms'', HRef kt),
           (cps ''red_flags'', HRef fl),
           (cps ''risk_score'', HRef rs),
           (cps ''recommendations'', HRef rc),
           (cps ''processing_time'', HFloat (processing_time a))])
     \<and> cells h kt = Some (HDict (map (\<lambda>kv. (fst kv, enc (snd kv))) kts))
     \<and> cells h fl = Some (HList (map HRef qs))
     \<and> length qs = length (red_flags a)
     \<and> list_all2 (\<lambda>q f. q < next_addr h \<and> cells h q = Some (HInstance (flag_fields f)))
          qs (red_flags a)
     \<and> cells h rs = Some (HInstance (score_fields (risk_score a)))
     \<and> cells h rc = Some (HList (map enc recs))
     \<and> p < next_addr h \<and> kt < next_addr h \<and> fl < next_addr h \<and> rs < next_addr h
     \<and> rc < next_addr h"

text \<open>
  The value a structure in the store stands for when it is built from dictionaries,
  lists and primitive values only. An enumeration member or a dataclass instance in it
  gives \<open>None\<close>: such a structure is no plain mapping. The first argument bounds the
  nesting.
\<close>

fun read_json :: "nat \<Rightarrow> heap \<Rightarrow> hval \<Rightarrow> pyval option"
  and read_values :: "nat \<Rightarrow> heap \<Rightarrow> hval list \<Rightarrow> pyval list option" where
  "read_json n h HNone = Some PNone"
| "read_json n h (HBool b) = Some (PBool b)"
| "read_json n h (HInt i) = Some (PInt i)"
| "read_json n h (HFloat q) = Some (PFloat q)"
| "read_json n h (HStr s) = Some (PStr s)"
| "read_json n h (HEnum e) = None"
| "read_json 0 h (HRef p) = None"
| "read_json (Suc n) h (HRef p) =
     (case cells h p of
        Some (HDict kvs) \<Rightarrow>
          (case read_values n h (map snd kvs) of
             None \<Rightarrow> None
           | Some vs \<Rightarrow> Some (PDict (zip (map fst kvs) vs)))
      | Some (HList vs0) \<Rightarrow>
          (case read_values n h vs0 of None \<Rightarrow> None | Some vs \<Rightarrow> Some (PList vs))
      | _ \<Rightarrow> None)"
| "read_values n h [] = Some []"
| "read_values n h (v # vs) =
     (case read_json n h v of
        None \<Rightarrow> None
      | Some w \<Rightarrow> (case read_values n h vs of None \<Rightarrow> None | Some ws \<Rightarrow> Some (w # ws)))"

text \<open>
  The mapping \<open>to_dict\<close> is to return for the analysis \<open>a\<close>: every \<open>RiskLevel\<close> as its
  lowercase string.
\<close>

definition flag_value :: "RedFlag \<Rightarrow> pyval" where
  "flag_value f =
     PDict [(cps ''clause_text'', clause_text f),
            (cps ''risk_type'', risk_type f),
            (cps ''explanation'', explanation f),
            (cps ''why_risky'', why_risky f),
            (cps ''suggested_alternative'', suggested_alternative f),
            (cps ''severity'', PStr (RiskLevel_value (severity f)))]"

definition score_value :: "RiskScore \<Rightarrow> pyval" where
  "score_value s =
     PDict [(cps ''financial_risk'', PStr (RiskLevel_value (financial_risk s))),
            (cps ''legal_exposure'', PStr (RiskLevel_value (legal_exposure s))),
            (cps ''fairness'', PStr (RiskLevel_value (fairness s))),
            (cps ''missing_clauses'', PStr (RiskLevel_value (missing_clauses s))),
            (cps ''overall_score'', PStr (RiskLevel_value (overall_score s)))]"

definition to_dict_value :: "ContractAnalysis \<Rightarrow> pyval" where
  "to_dict_value a =
     PDict [(cps ''summary'', summary a),
            (cps ''key_terms'', key_terms a),
            (cps ''red_flags'', PList (map flag_value (red_flags a))),
            (cps ''risk_score'', score_value (risk_score a)),
            (cps ''recommendations'', recommendations a),
            (cps ''processing_time'', PFloat (processing_time a))]"

text \<open>
  A value that is no reference; and the fields of a red flag and of a risk score with
  every \<open>RiskLevel\<close> replaced by its string.
\<close>

definition is_leafval :: "hval \<Rightarrow> bool" where
  "is_leafval v \<longleftrightarrow> (\<forall>q. v \<noteq> HRef q)"

definition flag_json_fields :: "RedFlag \<Rightarrow> (str \<times> hval) list" where
  "flag_json_fields f =
     [(cps ''clause_text'', enc (clause_text f)),
      (cps ''risk_type'', enc (risk_type f)),
      (cps ''explanation'', enc (explanation f)),
      (cps ''why_risky'', enc (why_risky f)),
      (cps ''suggested_alternative'', enc (suggested_alternative f)),
      (cps ''severity'', HStr (RiskLevel_value (severity f)))]"

definition score_json_fields :: "RiskScore \<Rightarrow> (str \<times> hval) list" where
  "score_json_fields s = map (\<lambda>kv. (fst kv, value_or_self (snd kv))) (score_fields s)"


text \<open>
  The items of the dictionary \<open>asdict\<close> builds for an analysis when the copies are stored
  from the address \<open>b\<close> on, for \<open>k\<close> red flags and with the risk score at \<open>s\<close>.
\<close>

definition result_fields :: "ContractAnalysis \<Rightarrow> addr \<Rightarrow> nat \<Rightarrow> addr \<Rightarrow> (str \<times> hval) list" where
  "result_fields a b k s =
     [(cps ''summary'', enc (summary a)),
      (cps ''key_terms'', HRef b),
      (cps ''red_flags'', HRef (Suc b + k)),
      (cps ''risk_score'', HRef s),
      (cps ''recommendations'', HRef (b + k + 3)),
      (cps ''processing_time'', HFloat (processing_time a))]"

text \<open>The interpreter's default recursion limit.\<close>

definition recursion_limit :: nat where
  "recursion_limit = 1000"

subsection \<open>A concrete store for the examples\<close>

definition flag_sample :: RedFlag where
  "flag_sample =
     \<lparr>clause_text = PStr (cps ''Pay now''), risk_type = PStr (cps ''Penalty''),
      explanation = PStr (cps ''Due at once''), why_risky = PStr (cps ''No grace period''),
      suggested_alternative = PStr (cps ''Thirty days''), severity = HIGH\<rparr>"

definition score_sample :: RiskScore where
  "score_sample =
     \<lparr>financial_risk = HIGH, legal_exposure = MEDIUM, fairness = LOW,
      missing_clauses = MEDIUM, overall_score = HIGH\<rparr>"

definition analysis_sample :: ContractAnalysis where
  "analysis_sample =
     \<lparr>summary = PStr (cps ''Lease''),
      key_terms = PDict [(cps ''parties'', PStr (cps ''A and B''))],
      red_flags = [flag_sample],
      risk_score = score_sample,
      recommendations = PList [PStr (cps ''Negotiate'')],
      processing_time = 1\<rparr>"

definition objects_sample :: "hobj list" where
  "objects_sample =
     [HDict [(cps ''parties'', HStr (cps ''A and B''))],
      HInstance (flag_fields flag_sample),
      HList [HRef 1],
      HInstance (score_fields score_sample),
      HList [HStr (cps ''Negotiate'')],
      HInstance
        [(cps ''summary'', HStr (cps ''Lease'')),
         (cps ''key_terms'', HRef 0),
         (cps ''red_flags'', HRef 2),
         (cps ''risk_score'', HRef 3),
         (cps ''recommendations'', HRef 4),
         (cps ''processing_time'', HFloat 1)]]"

definition heap_sample :: heap where
  "heap_sample =
     \<lparr>cells = (\<lambda>q. if q < 6 then Some (objects_sample ! q) else None), next_addr = 6\<rparr>"

section \<open>Properties of the normalizer\<close>

lemma chars_distinct [simp]:
  "SP \<noteq> NL" "NL \<noteq> SP" "SP \<noteq> CR" "CR \<noteq> SP" "NL \<noteq> CR" "CR \<noteq> NL"
  "APOSTROPHE \<noteq> SP" "APOSTROPHE \<noteq> NL" "DQUOTE \<noteq> SP" "DQUOTE \<noteq> NL"
  "LOW9_SINGLE \<noteq> SP" "LOW9_SINGLE \<noteq> NL" "LOW9_DOUBLE \<noteq> SP" "LOW9_DOUBLE \<noteq> NL"
  "APOSTROPHE \<noteq> CR" "DQUOTE \<noteq> CR" "APOSTROPHE \<noteq> LOW9_SINGLE" "APOSTROPHE \<noteq> LOW9_DOUBLE"
  "DQUOTE \<noteq> LOW9_SINGLE" "DQUOTE \<noteq> LOW9_DOUBLE" "LOW9_SINGLE \<noteq> LOW9_DOUBLE"
  by (simp_all add: SP_def NL_def CR_def APOSTROPHE_def DQUOTE_def LOW9_SINGLE_def LOW9_DOUBLE_def)

lemmas cp_defs = SP_def NL_def CR_def TAB_def APOSTROPHE_def DQUOTE_def LOW9_SINGLE_def LOW9_DOUBLE_def

subsection \<open>Collapsing spaces and line endings\<close>

lemma nds_Cons: "nds (x # ys) = ((x = SP \<longrightarrow> ys = [] \<or> hd ys \<noteq> SP) \<and> nds ys)"
  by (cases ys) auto

lemma nsn_Cons: "nsn (x # ys) = ((x = SP \<longrightarrow> ys = [] \<or> hd ys \<noteq> NL) \<and> nsn ys)"
  by (cases ys) auto

lemma hd_collapse_spaces: "t \<noteq> [] \<Longrightarrow> collapse_spaces t \<noteq> [] \<and> hd (collapse_spaces t) = hd t"
  by (induction t rule: collapse_spaces.induct) auto

lemma nds_collapse_spaces: "nds (collapse_spaces t)"
proof (induction t rule: collapse_spaces.induct)
  case (1 x y r)
  then show ?case using hd_collapse_spaces [of "y # r"] by (auto simp: nds_Cons)
qed auto

lemma collapse_spaces_fix: "nds t \<Longrightarrow> collapse_spaces t = t"
  by (induction t rule: collapse_spaces.induct) auto

lemma hd_replace_crlf: "t \<noteq> [] \<Longrightarrow> replace_crlf t \<noteq> [] \<and> (hd (replace_crlf t) = SP \<longleftrightarrow> hd t = SP)"
  by (induction t rule: replace_crlf.induct) auto

lemma nds_replace_crlf: "nds t \<Longrightarrow> nds (replace_crlf t)"
proof (induction t rule: replace_crlf.induct)
  case (1 x y r)
  show ?case
  proof (cases "x = CR \<and> y = NL")
    case True
    then have "nds r" using "1.prems" by (cases r) auto
    then show ?thesis using True "1.IH"(1) by (simp add: nds_Cons)
  next
    case False
    then show ?thesis using "1.prems" "1.IH"(2) hd_replace_crlf [of "y # r"] by (auto simp: nds_Cons)
  qed
qed auto

lemma replace_crlf_fix: "CR \<notin> set t \<Longrightarrow> replace_crlf t = t"
  by (induction t rule: replace_crlf.induct) auto

lemma nds_map: "(\<And>c. f c = SP \<longleftrightarrow> c = SP) \<Longrightarrow> nds (map f t) = nds t"
  by (induction t rule: nds.induct) auto

lemma nsn_map: "(\<And>c. f c = SP \<longleftrightarrow> c = SP) \<Longrightarrow> (\<And>c. f c = NL \<longleftrightarrow> c = NL) \<Longrightarrow> nsn (map f t) = nsn t"
  by (induction t rule: nsn.induct) auto

lemma n3_map: "(\<And>c. f c = NL \<longleftrightarrow> c = NL) \<Longrightarrow> n3 (map f t) = n3 t"
  by (induction t rule: n3.induct) auto


subsection \<open>Spaces before a newline\<close>

lemma nds_replicate_SP: "nds (replicate n SP @ t) \<Longrightarrow> nds t"
  by (induction n) (auto simp: nds_Cons)

lemma nsn_replicate: "x \<noteq> NL \<Longrightarrow> nsn (replicate n SP @ x # t) = nsn (x # t)"
  by (induction n) (auto simp: nsn_Cons hd_append)

lemma nsn_replicate_Nil: "nsn (replicate n SP)"
  by (induction n) (auto simp: nsn_Cons)

lemma nsn_strip_trailing: "nsn (strip_trailing n t)"
proof (induction t arbitrary: n)
  case Nil
  show ?case by (simp add: nsn_replicate_Nil)
next
  case (Cons x r)
  show ?case
  proof (cases "x = SP")
    case True
    then show ?thesis using Cons by simp
  next
    case False
    show ?thesis
    proof (cases "x = NL")
      case True
      then show ?thesis using Cons [of 0] by (simp add: nsn_Cons)
    next
      case nl: False
      have "nsn (x # strip_trailing 0 r)" using False Cons [of 0] by (simp add: nsn_Cons)
      then show ?thesis using False nl by (simp add: nsn_replicate)
    qed
  qed
qed

lemma strip_trailing_fix_gen:
  "nsn t \<Longrightarrow> (0 < n \<Longrightarrow> t = [] \<or> hd t \<noteq> NL) \<Longrightarrow> strip_trailing n t = replicate n SP @ t"
proof (induction t arbitrary: n)
  case Nil
  then show ?case by simp
next
  case (Cons x r)
  show ?case
  proof (cases "x = SP")
    case True
    have "strip_trailing (Suc n) r = replicate (Suc n) SP @ r"
      using Cons.prems(1) True by (intro Cons.IH) (auto simp: nsn_Cons)
    then show ?thesis using True by (simp add: replicate_append_same)
  next
    case False
    have r: "strip_trailing 0 r = r" using Cons.IH [of 0] Cons.prems(1) by (simp add: nsn_Cons)
    show ?thesis
    proof (cases "x = NL")
      case True
      then have "n = 0" using Cons.prems(2) by auto
      then show ?thesis using True r by simp
    next
      case nl: False
      then show ?thesis using False r by simp
    qed
  qed
qed

lemma strip_trailing_fix: "nsn t \<Longrightarrow> strip_trailing 0 t = t"
  using strip_trailing_fix_gen [of t 0] by simp

lemma set_strip_trailing: "set (strip_trailing n t) \<subseteq> set t \<union> {SP}"
  by (induction t arbitrary: n) (auto split: if_splits)

text \<open>The pending spaces of \<open>strip_trailing\<close> are spaces of the input.\<close>

lemma nds_strip_trailing_gen:
  "nds (replicate n SP @ t) \<Longrightarrow> nds (strip_trailing n t)"
proof (induction t arbitrary: n)
  case Nil
  then show ?case by simp
next
  case (Cons x r)
  show ?case
  proof (cases "x = SP")
    case True
    then show ?thesis using Cons.IH [of "Suc n"] Cons.prems by (simp add: replicate_app_Cons_same)
  next
    case False
    have "nds (x # r)" using Cons.prems by (rule nds_replicate_SP)
    then have r: "nds r" by (simp add: nds_Cons)
    then have sr: "nds (strip_trailing 0 r)" using Cons.IH [of 0] by simp
    have xs: "nds (x # strip_trailing 0 r)" using False sr by (simp add: nds_Cons)
    show ?thesis
    proof (cases "x = NL")
      case True
      then show ?thesis using xs by simp
    next
      case nl: False
      have "n \<le> 1" using Cons.prems
        by (cases n; cases "n - 1") (auto simp: nds_Cons)
      then have "n = 0 \<or> n = 1" by auto
      then show ?thesis using False nl xs by (auto simp: nds_Cons)
    qed
  qed
qed

lemma nds_strip_trailing: "nds t \<Longrightarrow> nds (strip_trailing 0 t)"
  using nds_strip_trailing_gen [of 0 t] by simp


subsection \<open>Runs of newlines\<close>

lemma n3_Cons_other: "x \<noteq> NL \<Longrightarrow> n3 (x # t) = n3 t"
  by (cases t rule: n3.cases) auto

lemma n3_tl: "n3 (x # t) \<Longrightarrow> n3 t"
  by (cases t rule: n3.cases) auto

lemma n3_NL_other: "x \<noteq> NL \<Longrightarrow> n3 (NL # x # t) = n3 t"
  by (cases t) (auto simp: n3_Cons_other)

lemma n3_NL_NL_other: "x \<noteq> NL \<Longrightarrow> n3 (NL # NL # x # t) = n3 t"
  by (simp add: n3_NL_other)

lemma n3_collapse_newlines_gen:
  "k \<le> 2 \<Longrightarrow> n3 (replicate k NL @ collapse_newlines k t)"
proof (induction t arbitrary: k)
  case Nil
  then have "k = 0 \<or> k = 1 \<or> k = 2" by auto
  then show ?case by (auto simp: numeral_2_eq_2)
next
  case (Cons x r)
  have k: "k = 0 \<or> k = 1 \<or> k = 2" using Cons.prems by auto
  show ?case
  proof (cases "x = NL")
    case True
    show ?thesis
    proof (cases "2 \<le> k")
      case True
      then show ?thesis using \<open>x = NL\<close> Cons.IH [of k] Cons.prems by simp
    next
      case False
      then have "Suc k \<le> 2" by simp
      then show ?thesis using \<open>x = NL\<close> False Cons.IH [of "Suc k"]
        by (simp add: replicate_app_Cons_same)
    qed
  next
    case False
    have "n3 (collapse_newlines 0 r)" using Cons.IH [of 0] by simp
    then show ?thesis using False k
      by (auto simp: numeral_2_eq_2 n3_Cons_other n3_NL_other)
  qed
qed

lemma n3_collapse_newlines: "n3 (collapse_newlines 0 t)"
  using n3_collapse_newlines_gen [of 0 t] by simp

lemma collapse_newlines_fix_gen:
  "k \<le> 2 \<Longrightarrow> n3 (replicate k NL @ t) \<Longrightarrow> collapse_newlines k t = t"
proof (induction t arbitrary: k)
  case Nil
  show ?case by simp
next
  case (Cons x r)
  have k: "k = 0 \<or> k = 1 \<or> k = 2" using Cons.prems by auto
  show ?case
  proof (cases "x = NL")
    case True
    have "k \<noteq> 2" using Cons.prems(2) True by (auto simp: numeral_2_eq_2)
    then have k2: "Suc k \<le> 2" using k by auto
    have "n3 (replicate (Suc k) NL @ r)" using Cons.prems(2) True
      by (simp add: replicate_app_Cons_same)
    then have "collapse_newlines (Suc k) r = r" using k2 by (rule Cons.IH [rotated])
    then show ?thesis using True \<open>k \<noteq> 2\<close> k by auto
  next
    case False
    have "n3 r" using Cons.prems(2) False k
      by (auto simp: numeral_2_eq_2 n3_Cons_other n3_NL_other)
    then have "collapse_newlines 0 r = r" using Cons.IH [of 0] by simp
    then show ?thesis using False by simp
  qed
qed

lemma collapse_newlines_fix: "n3 t \<Longrightarrow> collapse_newlines 0 t = t"
  using collapse_newlines_fix_gen [of 0 t] by simp

lemma set_collapse_newlines: "set (collapse_newlines k t) \<subseteq> set t"
  by (induction t arbitrary: k) auto

lemma hd_collapse_newlines:
  "collapse_newlines k t \<noteq> [] \<Longrightarrow> hd (collapse_newlines k t) \<noteq> NL \<Longrightarrow>
   t \<noteq> [] \<and> hd (collapse_newlines k t) = hd (dropWhile (\<lambda>c. c = NL) t)"
  by (induction t arbitrary: k) (auto split: if_splits)

text \<open>
  An element that is not a newline keeps its successor's kind: newline or the same
  element.
\<close>

lemma nds_collapse_newlines: "nds t \<Longrightarrow> nds (collapse_newlines k t)"
proof (induction t arbitrary: k)
  case Nil
  show ?case by simp
next
  case (Cons x r)
  have r: "nds r" using Cons.prems by (simp add: nds_Cons)
  show ?case
  proof (cases "x = NL")
    case True
    then show ?thesis using Cons.IH [OF r] by (auto simp: nds_Cons)
  next
    case False
    have "nds (collapse_newlines 0 r)" using Cons.IH [OF r] .
    moreover have "x = SP \<Longrightarrow> collapse_newlines 0 r = [] \<or> hd (collapse_newlines 0 r) \<noteq> SP"
    proof -
      assume x: "x = SP"
      show ?thesis
      proof (cases r)
        case Nil
        then show ?thesis by simp
      next
        case (Cons y s)
        then have "y \<noteq> SP" using Cons.prems x \<open>nds (x # r)\<close> by (simp add: nds_Cons)
        then show ?thesis using Cons by auto
      qed
    qed
    ultimately show ?thesis using False by (simp add: nds_Cons)
  qed
qed


lemma nsn_collapse_newlines: "nsn t \<Longrightarrow> nsn (collapse_newlines k t)"
proof (induction t arbitrary: k)
  case Nil
  show ?case by simp
next
  case (Cons x r)
  have r: "nsn r" using Cons.prems by (simp add: nsn_Cons)
  show ?case
  proof (cases "x = NL")
    case True
    then show ?thesis using Cons.IH [OF r] by (auto simp: nsn_Cons)
  next
    case False
    have "nsn (collapse_newlines 0 r)" using Cons.IH [OF r] .
    moreover have "x = SP \<Longrightarrow> collapse_newlines 0 r = [] \<or> hd (collapse_newlines 0 r) \<noteq> NL"
    proof -
      assume x: "x = SP"
      show ?thesis
      proof (cases r)
        case Nil
        then show ?thesis by simp
      next
        case (Cons y s)
        then have "y \<noteq> NL" using x \<open>nsn (x # r)\<close> by (simp add: nsn_Cons)
        then show ?thesis using Cons by auto
      qed
    qed
    ultimately show ?thesis using False by (simp add: nsn_Cons)
  qed
qed

subsection \<open>The outer trim\<close>

lemma nds_append_right: "nds (a @ t) \<Longrightarrow> nds t"
  by (induction a) (auto simp: nds_Cons)

lemma nds_append_left: "nds (t @ b) \<Longrightarrow> nds t"
  by (induction t rule: nds.induct) auto

lemma nsn_append_right: "nsn (a @ t) \<Longrightarrow> nsn t"
  by (induction a) (auto simp: nsn_Cons)

lemma nsn_append_left: "nsn (t @ b) \<Longrightarrow> nsn t"
  by (induction t rule: nsn.induct) auto

lemma n3_append_right: "n3 (a @ t) \<Longrightarrow> n3 t"
  by (induction a) (auto dest: n3_tl)

lemma n3_append_left: "n3 (t @ b) \<Longrightarrow> n3 t"
  by (induction t rule: n3.induct) auto

lemma lstrip_decomp: "takeWhile py_isspace t @ lstrip t = t"
  by (simp add: lstrip_def)

lemma rstrip_decomp: "rstrip t @ rev (takeWhile py_isspace (rev t)) = t"
proof -
  have "rev (takeWhile py_isspace (rev t) @ dropWhile py_isspace (rev t)) = t" by simp
  then show ?thesis unfolding rstrip_def rev_append .
qed

lemma strip_decomp: "\<exists>a b. t = a @ strip t @ b"
proof -
  have "t = takeWhile py_isspace t @ lstrip t" by (simp add: lstrip_decomp)
  also have "lstrip t = strip t @ rev (takeWhile py_isspace (rev (lstrip t)))"
    unfolding strip_def by (simp add: rstrip_decomp)
  finally show ?thesis by blast
qed

lemma nds_strip: "nds t \<Longrightarrow> nds (strip t)"
  using strip_decomp [of t] by (metis nds_append_left nds_append_right)

lemma nsn_strip: "nsn t \<Longrightarrow> nsn (strip t)"
  using strip_decomp [of t] by (metis nsn_append_left nsn_append_right)

lemma n3_strip: "n3 t \<Longrightarrow> n3 (strip t)"
  using strip_decomp [of t] by (metis n3_append_left n3_append_right)

lemma set_strip: "set (strip t) \<subseteq> set t"
  using strip_decomp [of t] by (metis Un_upper1 Un_upper2 set_append subset_trans)

lemma rstrip_idem: "rstrip (rstrip t) = rstrip t"
proof (cases "dropWhile py_isspace (rev t)")
  case Nil
  then show ?thesis by (simp add: rstrip_def)
next
  case (Cons x r)
  then have "\<not> py_isspace x" using hd_dropWhile [of py_isspace "rev t"] by auto
  then show ?thesis using Cons by (simp add: rstrip_def)
qed

lemma lstrip_rstrip_lstrip: "lstrip (rstrip (lstrip t)) = rstrip (lstrip t)"
proof (cases "rstrip (lstrip t)")
  case Nil
  then show ?thesis by (simp add: lstrip_def)
next
  case (Cons x r)
  have "lstrip t = (x # r) @ rev (takeWhile py_isspace (rev (lstrip t)))"
    using rstrip_decomp [of "lstrip t"] Cons by simp
  then have "hd (lstrip t) = x" and "lstrip t \<noteq> []" by (metis append_Cons list.sel(1), auto)
  then have "\<not> py_isspace x" using hd_dropWhile [of py_isspace t] by (auto simp: lstrip_def)
  then show ?thesis using Cons by (simp add: lstrip_def)
qed

lemma strip_idem: "strip (strip t) = strip t"
  unfolding strip_def by (simp add: lstrip_rstrip_lstrip rstrip_idem)


subsection \<open>The whole pipeline\<close>

lemma keep_strip_trailing:
  "\<forall>c\<in>set t. K c \<Longrightarrow> (0 < n \<Longrightarrow> K SP) \<Longrightarrow> \<forall>c\<in>set (strip_trailing n t). K c"
  by (induction t arbitrary: n) auto

lemma keep_collapse_spaces: "\<forall>c\<in>set t. K c \<Longrightarrow> \<forall>c\<in>set (collapse_spaces t). K c"
  by (induction t rule: collapse_spaces.induct) auto

lemma keep_replace_crlf: "\<forall>c\<in>set t. K c \<Longrightarrow> \<forall>c\<in>set (replace_crlf t). K c"
  by (induction t rule: replace_crlf.induct) auto

lemma keep_normalize_tail:
  assumes "\<forall>c\<in>set t. K c" and "K NL" and "K APOSTROPHE" and "K DQUOTE"
  shows "\<forall>c\<in>set (normalize_tail t). K c"
proof -
  let ?a = "collapse_spaces t"
  let ?c = "replace_cr (replace_crlf ?a)"
  let ?d = "strip_trailing 0 ?c"
  let ?e = "collapse_newlines 0 ?d"
  let ?g = "double_quotes (single_quotes ?e)"
  have "\<forall>c\<in>set (replace_crlf ?a). K c" using assms(1) by (intro keep_replace_crlf keep_collapse_spaces)
  then have "\<forall>c\<in>set ?c. K c" using assms(2) by (auto simp: replace_cr_def)
  then have "\<forall>c\<in>set ?d. K c" by (rule keep_strip_trailing) simp
  then have "\<forall>c\<in>set ?e. K c" using set_collapse_newlines [of 0 ?d] by blast
  then have "\<forall>c\<in>set ?g. K c" using assms(3,4) by (auto simp: single_quotes_def double_quotes_def)
  then show ?thesis unfolding normalize_tail_def using set_strip [of ?g] by blast
qed

lemma inv_single_quotes:
  "nds (single_quotes t) = nds t" "nsn (single_quotes t) = nsn t" "n3 (single_quotes t) = n3 t"
  unfolding single_quotes_def by (rule nds_map nsn_map n3_map; auto)+

lemma inv_double_quotes:
  "nds (double_quotes t) = nds t" "nsn (double_quotes t) = nsn t" "n3 (double_quotes t) = n3 t"
  unfolding double_quotes_def by (rule nds_map nsn_map n3_map; auto)+

lemma nds_replace_cr: "nds (replace_cr t) = nds t"
  unfolding replace_cr_def by (rule nds_map) auto

lemma normalize_tail_fix:
  assumes "nds t" "CR \<notin> set t" "nsn t" "n3 t" "LOW9_SINGLE \<notin> set t" "LOW9_DOUBLE \<notin> set t"
    "strip t = t"
  shows "normalize_tail t = t"
proof -
  have 1: "collapse_spaces t = t" using assms(1) by (rule collapse_spaces_fix)
  have 2: "replace_crlf t = t" using assms(2) by (rule replace_crlf_fix)
  have 3: "replace_cr t = t" using assms(2) unfolding replace_cr_def by (induction t) auto
  have 4: "strip_trailing 0 t = t" using assms(3) by (rule strip_trailing_fix)
  have 5: "collapse_newlines 0 t = t" using assms(4) by (rule collapse_newlines_fix)
  have 6: "single_quotes t = t" using assms(5) unfolding single_quotes_def by (induction t) auto
  have 7: "double_quotes t = t" using assms(6) unfolding double_quotes_def by (induction t) auto
  show ?thesis unfolding normalize_tail_def by (simp add: 1 2 3 4 5 6 7 assms(7))
qed

lemma normalize_tail_idem: "normalize_tail (normalize_tail t) = normalize_tail t"
proof -
  let ?a = "collapse_spaces t"
  let ?b = "replace_crlf ?a"
  let ?c = "replace_cr ?b"
  let ?d = "strip_trailing 0 ?c"
  let ?e = "collapse_newlines 0 ?d"
  let ?f = "single_quotes ?e"
  let ?g = "double_quotes ?f"
  have R: "normalize_tail t = strip ?g" by (simp add: normalize_tail_def)
  \<comment> \<open>no double space\<close>
  have "nds ?b" by (intro nds_replace_crlf nds_collapse_spaces)
  then have "nds ?c" by (simp add: nds_replace_cr)
  then have "nds ?e" by (intro nds_collapse_newlines nds_strip_trailing)
  then have "nds ?g" by (simp add: inv_single_quotes inv_double_quotes)
  then have i1: "nds (strip ?g)" by (rule nds_strip)
  \<comment> \<open>no carriage return\<close>
  have "CR \<notin> set ?c" by (auto simp: replace_cr_def)
  then have "\<forall>c\<in>set ?c. c \<noteq> CR" by blast
  then have "\<forall>c\<in>set ?d. c \<noteq> CR" by (rule keep_strip_trailing) simp
  then have "\<forall>c\<in>set ?e. c \<noteq> CR" using set_collapse_newlines [of 0 ?d] by blast
  then have "\<forall>c\<in>set ?g. c \<noteq> CR"
    by (auto simp: single_quotes_def double_quotes_def cp_defs)
  then have i2: "CR \<notin> set (strip ?g)" using set_strip [of ?g] by blast
  \<comment> \<open>no space before a newline\<close>
  have "nsn ?e" by (intro nsn_collapse_newlines nsn_strip_trailing)
  then have "nsn ?g" by (simp add: inv_single_quotes inv_double_quotes)
  then have i3: "nsn (strip ?g)" by (rule nsn_strip)
  \<comment> \<open>no three newlines\<close>
  have "n3 ?e" by (rule n3_collapse_newlines)
  then have "n3 ?g" by (simp add: inv_single_quotes inv_double_quotes)
  then have i4: "n3 (strip ?g)" by (rule n3_strip)
  \<comment> \<open>no low quote\<close>
  have "LOW9_SINGLE \<notin> set ?g" "LOW9_DOUBLE \<notin> set ?g"
    by (auto simp: single_quotes_def double_quotes_def cp_defs)
  then have i5: "LOW9_SINGLE \<notin> set (strip ?g)" and i6: "LOW9_DOUBLE \<notin> set (strip ?g)"
    using set_strip [of ?g] by blast+
  have i7: "strip (strip ?g) = strip ?g" by (rule strip_idem)
  show ?thesis unfolding R using i1 i2 i3 i4 i5 i6 i7 by (rule normalize_tail_fix)
qed

lemma strip_control_fix: "\<forall>c\<in>set t. \<not> isC c \<or> c = NL \<or> c = CR \<or> c = TAB \<Longrightarrow> strip_control isC t = t"
  unfolding strip_control_def by (induction t) auto

lemmas norm_eval = normalize_def normalize_tail_def strip_control_def strip_def lstrip_def
  rstrip_def py_isspace_def replace_cr_def single_quotes_def double_quotes_def
  isC_excerpt_def cp_defs cps_def

text \<open>
  Claim C5, as amended. The normalizer is idempotent on every string whose normal form
  is left unchanged by NFKC, which covers all ASCII text: on such a string the second
  pass changes nothing. The apostrophe and the quotation mark, which the quote step
  writes, are not of a control category.
\<close>

theorem normalize_idempotent_nfkc_stable:
  assumes "nfkc (normalize nfkc isC t) = normalize nfkc isC t"
    and "\<not> isC APOSTROPHE" and "\<not> isC DQUOTE"
  shows "normalize nfkc isC (normalize nfkc isC t) = normalize nfkc isC t"
proof (cases "normalize nfkc isC t = []")
  case True
  then show ?thesis by (simp add: normalize_def)
next
  case False
  then have t: "t \<noteq> []" by (auto simp: normalize_def)
  let ?u = "strip_control isC (nfkc t)"
  let ?K = "\<lambda>c. \<not> isC c \<or> c = NL \<or> c = CR \<or> c = TAB"
  have R: "normalize nfkc isC t = normalize_tail ?u" using t by (simp add: normalize_def)
  have "\<forall>c\<in>set ?u. ?K c" by (auto simp: strip_control_def)
  then have "\<forall>c\<in>set (normalize_tail ?u). ?K c"
    using assms(2,3) by (intro keep_normalize_tail) auto
  then have "strip_control isC (normalize_tail ?u) = normalize_tail ?u" by (rule strip_control_fix)
  moreover have "nfkc (normalize_tail ?u) = normalize_tail ?u" using assms(1) R by simp
  ultimately have "normalize nfkc isC (normalize_tail ?u) = normalize_tail (normalize_tail ?u)"
    using False R by (simp add: normalize_def)
  then show ?thesis using R by (simp add: normalize_tail_idem)
qed

text \<open>
  The theorem at a string with double spaces, a carriage return, four newlines, both low
  quotes, a NUL character and surrounding blanks.
\<close>

theorem normalize_idempotent_nfkc_stable_witness:
  "nfkc_excerpt (normalize nfkc_excerpt isC_excerpt
     (cps ''  a  b  '' @ [13, 10, 10, 10, 10, 8222] @ cps ''c '' @ [8218, 32, 10, 0, 32]))
     = normalize nfkc_excerpt isC_excerpt
     (cps ''  a  b  '' @ [13, 10, 10, 10, 10, 8222] @ cps ''c '' @ [8218, 32, 10, 0, 32])
   \<and> \<not> isC_excerpt APOSTROPHE \<and> \<not> isC_excerpt DQUOTE
   \<and> normalize nfkc_excerpt isC_excerpt (normalize nfkc_excerpt isC_excerpt
     (cps ''  a  b  '' @ [13, 10, 10, 10, 10, 8222] @ cps ''c '' @ [8218, 32, 10, 0, 32]))
     = normalize nfkc_excerpt isC_excerpt
     (cps ''  a  b  '' @ [13, 10, 10, 10, 10, 8222] @ cps ''c '' @ [8218, 32, 10, 0, 32])"
proof -
  let ?w = "cps ''  a  b  '' @ [13, 10, 10, 10, 10, 8222] @ cps ''c '' @ [8218, 32, 10, 0, 32]"
  have v: "normalize nfkc_excerpt isC_excerpt ?w = cps ''a b'' @ [10, 10, 34] @ cps ''c '' @ [39]"
    by (simp add: norm_eval)
  have h1: "nfkc_excerpt (normalize nfkc_excerpt isC_excerpt ?w)
      = normalize nfkc_excerpt isC_excerpt ?w"
    unfolding v by (simp add: cps_def)
  have h2: "\<not> isC_excerpt APOSTROPHE" by (simp add: isC_excerpt_def cp_defs)
  have h3: "\<not> isC_excerpt DQUOTE" by (simp add: isC_excerpt_def cp_defs)
  show ?thesis
    by (intro conjI h1 h2 h3 normalize_idempotent_nfkc_stable [OF h1 h2 h3])
qed

text \<open>
  Claim C5 as stated fails. For the string U+0061 U+200B U+0301 the first pass removes
  the zero width space (a format character) after NFKC has run, which leaves the letter
  next to the combining accent; the second pass composes the two into U+00E1.
\<close>

theorem normalize_not_idempotent:
  "normalize nfkc_excerpt isC_excerpt (normalize nfkc_excerpt isC_excerpt [97, 8203, 769])
     \<noteq> normalize nfkc_excerpt isC_excerpt [97, 8203, 769]"
proof -
  have 1: "normalize nfkc_excerpt isC_excerpt [97, 8203, 769] = [97, 769]"
    by (simp add: norm_eval)
  have 2: "normalize nfkc_excerpt isC_excerpt [97, 769] = [225]"
    by (simp add: norm_eval)
  show ?thesis unfolding 1 2 by simp
qed

section \<open>Properties of the processor\<close>

lemmas str_eval = cps_def strip_def lstrip_def rstrip_def py_isspace_def cp_defs

lemma strip_Nil [simp]: "strip [] = []"
  by (simp add: strip_def lstrip_def rstrip_def)

lemma strip_NL [simp]: "strip [NL] = []"
  by (simp add: strip_def lstrip_def rstrip_def py_isspace_def NL_def)

subsection \<open>PDF extraction\<close>

lemma join_concat: "ts \<noteq> [] \<Longrightarrow> concat (map (\<lambda>t. t @ sep) ts) = join sep ts @ sep"
  by (induction sep ts rule: join.induct) auto

lemma pdf_pages_loop_all:
  "pdf_pages_loop acc (map Inr ts) =
     Inr (acc @ concat (map (\<lambda>t. t @ [NL]) (filter (\<lambda>t. t \<noteq> []) ts)))"
  by (induction ts arbitrary: acc) auto

text \<open>
  Claim C7, as amended. When every page can be read, PDF extraction returns the texts
  of the pages that yield text, newline-joined and followed by one more newline: each
  page text is written with a newline after it. Pages without text are skipped, and
  when what was collected is blank (in particular when no page yields text) the result
  is the empty string and not an error.
\<close>

theorem extract_from_pdf_pages:
  "extract_from_pdf (Inr (map Inr ts)) =
     Inr (let body = join [NL] (filter (\<lambda>t. t \<noteq> []) ts) @ [NL]
          in if strip body = [] then [] else body)"
proof (cases "filter (\<lambda>t. t \<noteq> []) ts = []")
  case True
  then show ?thesis
    by (simp add: extract_from_pdf_def pdf_try_def pdf_pages_loop_all)
next
  case False
  then show ?thesis
    by (simp add: extract_from_pdf_def pdf_try_def pdf_pages_loop_all join_concat Let_def)
qed

text \<open>Three pages, the second without text, and a document none of whose pages has text.\<close>

theorem extract_from_pdf_pages_witness:
  "extract_from_pdf (Inr (map Inr [cps ''A'', [], cps ''B''])) = Inr (cps ''A'' @ [NL] @ cps ''B'' @ [NL])
   \<and> extract_from_pdf (Inr (map Inr [[], []])) = Inr []"
  using extract_from_pdf_pages [of "[cps ''A'', [], cps ''B'']"]
    extract_from_pdf_pages [of "[[], []]"]
  by (simp add: str_eval)

text \<open>
  Claim C7 as stated fails: for the three pages \<open>A\<close>, empty, \<open>B\<close> the result is not the
  two texts joined by a newline, because it ends with a newline.
\<close>

theorem extract_from_pdf_not_join:
  "extract_from_pdf (Inr [Inr (cps ''A''), Inr [], Inr (cps ''B'')])
     \<noteq> Inr (join [NL] [cps ''A'', cps ''B''])"
  by (simp add: extract_from_pdf_def pdf_try_def str_eval)

subsection \<open>Text extraction\<close>

text \<open>
  Claim C6. For an existing file with a supported extension, \<open>extract_text\<close> called with
  its second argument true returns what the format's extraction returns, passed through
  the normalizer when the processor's normalize-text flag is set and unchanged when the
  flag is cleared; a failed extraction is passed on.
\<close>

theorem extract_text_clean:
  assumes "path_exists w f"
    and "ucd_lower u (path_suffix w f) \<in> set (supported_formats (init_processor flag))"
  shows "extract_text w u (init_processor flag) f True =
     (case (if ucd_lower u (path_suffix w f) = cps ''.pdf''
            then extract_from_pdf (pdf_reader w f)
            else extract_from_docx (docx_document w f)) of
        Inl e \<Rightarrow> Inl e
      | Inr t \<Rightarrow> Inr (if flag then normalize (ucd_nfkc u) (ucd_isC u) t else t))"
  using assms by (auto simp: extract_text_def init_processor_def Let_def split: sum.splits)

lemma sample_suffix: "ucd_lower ucd_excerpt (path_suffix world_sample (cps ''deal.PDF'')) = cps ''.pdf''"
  by (simp add: ucd_excerpt_def world_sample_def ascii_lower_def cps_def)

lemma sample_pdf:
  "extract_from_pdf (pdf_reader world_sample (cps ''deal.PDF''))
     = Inr (cps ''Lease  terms'' @ NL # cps ''Signed'' @ [NL])"
  by (simp add: world_sample_def extract_from_pdf_def pdf_try_def str_eval)

lemma sample_normalize:
  "normalize nfkc_excerpt isC_excerpt (cps ''Lease  terms'' @ NL # cps ''Signed'' @ [NL])
     = cps ''Lease terms'' @ NL # cps ''Signed''"
  by (simp add: norm_eval)

theorem extract_text_clean_witness:
  "path_exists world_sample (cps ''deal.PDF'')
   \<and> ucd_lower ucd_excerpt (path_suffix world_sample (cps ''deal.PDF''))
       \<in> set (supported_formats (init_processor True))
   \<and> extract_text world_sample ucd_excerpt (init_processor True) (cps ''deal.PDF'') True
       = Inr (cps ''Lease terms'' @ NL # cps ''Signed'')
   \<and> extract_text world_sample ucd_excerpt (init_processor False) (cps ''deal.PDF'') True
       = Inr (cps ''Lease  terms'' @ NL # cps ''Signed'' @ [NL])"
proof -
  have h1: "path_exists world_sample (cps ''deal.PDF'')" by (simp add: world_sample_def)
  have h2: "ucd_lower ucd_excerpt (path_suffix world_sample (cps ''deal.PDF''))
      \<in> set (supported_formats (init_processor flag))" for flag
    unfolding sample_suffix by (simp add: init_processor_def)
  have n: "ucd_nfkc ucd_excerpt = nfkc_excerpt" "ucd_isC ucd_excerpt = isC_excerpt"
    by (simp_all add: ucd_excerpt_def)
  have 1: "extract_text world_sample ucd_excerpt (init_processor True) (cps ''deal.PDF'') True
       = Inr (cps ''Lease terms'' @ NL # cps ''Signed'')"
    using extract_text_clean [OF h1 h2 [of True]]
    by (simp add: sample_suffix sample_pdf n sample_normalize)
  have 2: "extract_text world_sample ucd_excerpt (init_processor False) (cps ''deal.PDF'') True
       = Inr (cps ''Lease  terms'' @ NL # cps ''Signed'' @ [NL])"
    using extract_text_clean [OF h1 h2 [of False]]
    by (simp add: sample_suffix sample_pdf)
  show ?thesis by (intro conjI h1 h2 1 2)
qed

subsection \<open>Validation\<close>

lemma distinct_keywords: "distinct contract_keywords"
  by (simp add: contract_keywords_def cps_def)

lemma found_length:
  "length (filter (\<lambda>kw. sublist kw s) contract_keywords)
     = card {kw \<in> set contract_keywords. sublist kw s}"
proof -
  let ?found = "filter (\<lambda>kw. sublist kw s) contract_keywords"
  have "distinct ?found" using distinct_keywords by simp
  then have "card (set ?found) = length ?found" by (rule distinct_card)
  moreover have "set ?found = {kw \<in> set contract_keywords. sublist kw s}" by auto
  ultimately show ?thesis by simp
qed

text \<open>
  Claim C8. A text shorter than \<open>min_length\<close> gets the fixed result with \<open>is_valid\<close> false
  and the single issue about its length: the lowercasing function and the keyword list
  do not occur in it, and no \<open>found_keywords\<close> entry is made. A text that is long enough
  is valid exactly when at least two different keywords of the list occur in its
  lowercased form. The function is total: it returns a result for every text and every
  \<open>min_length\<close>.
\<close>

theorem validate_contract_text_spec:
  "(int (length t) < m \<longrightarrow>
      validate_contract_text lower t m =
        \<lparr>is_valid = False, length_ok = False, has_contract_keywords = False,
         issues = [cps ''Text too short ('' @ digits (length t) @ cps '' chars, need ''
                     @ str_of_int m @ cps '')''],
         found_keywords = None\<rparr>)
   \<and> (\<not> int (length t) < m \<longrightarrow>
        is_valid (validate_contract_text lower t m)
          = (2 \<le> card {kw \<in> set contract_keywords. sublist kw (lower t)}))"
proof (intro conjI impI)
  assume "int (length t) < m"
  then show "validate_contract_text lower t m =
        \<lparr>is_valid = False, length_ok = False, has_contract_keywords = False,
         issues = [cps ''Text too short ('' @ digits (length t) @ cps '' chars, need ''
                     @ str_of_int m @ cps '')''],
         found_keywords = None\<rparr>"
    by (simp add: validate_contract_text_def)
next
  assume "\<not> int (length t) < m"
  then show "is_valid (validate_contract_text lower t m)
      = (2 \<le> card {kw \<in> set contract_keywords. sublist kw (lower t)})"
    using found_length [of "lower t"]
    by (auto simp: validate_contract_text_def Let_def)
qed

text \<open>
  A five-character text against the default threshold, and a text with the keywords
  \<open>agreement\<close> and \<open>parties\<close> in mixed case against the threshold 10.
\<close>

theorem validate_contract_text_spec_witness:
  "int (length (cps ''short'')) < min_length_default
   \<and> is_valid (validate_contract_text ascii_lower (cps ''short'') min_length_default) = False
   \<and> found_keywords (validate_contract_text ascii_lower (cps ''short'') min_length_default) = None
   \<and> \<not> int (length (cps ''This AGREEMENT binds the Parties'')) < 10
   \<and> is_valid (validate_contract_text ascii_lower (cps ''This AGREEMENT binds the Parties'') 10)
   \<and> 2 \<le> card {kw \<in> set contract_keywords.
              sublist kw (ascii_lower (cps ''This AGREEMENT binds the Parties''))}"
proof -
  have h1: "int (length (cps ''short'')) < min_length_default"
    by (simp add: cps_def min_length_default_def)
  have h2: "\<not> int (length (cps ''This AGREEMENT binds the Parties'')) < 10"
    by (simp add: cps_def)
  have v: "is_valid (validate_contract_text ascii_lower (cps ''This AGREEMENT binds the Parties'') 10)"
    by (simp add: validate_contract_text_def contract_keywords_def cps_def ascii_lower_def
        sublist_code prefix_code Let_def)
  show ?thesis
    using validate_contract_text_spec [of "cps ''short''" min_length_default ascii_lower]
      validate_contract_text_spec [of "cps ''This AGREEMENT binds the Parties''" 10 ascii_lower]
      h1 h2 v
    by simp
qed

subsection \<open>Statistics\<close>

lemma average_Inr:
  "(nonempty \<Longrightarrow> b \<noteq> 0) \<Longrightarrow>
   \<exists>n. average round1 nonempty a b = Inr n \<and> (\<not> nonempty \<longrightarrow> n = IntNum 0)"
  by (auto simp: average_def truediv_def)

text \<open>
  Claim C9. On the empty string all four counts are zero and both averages are the
  integer zero. For every text the function returns a result, so neither division raises
  \<open>ZeroDivisionError\<close>; the average word length is zero when there is no word, and the
  average sentence length is zero when there is no sentence.
\<close>

theorem get_text_stats_no_division_by_zero:
  "get_text_stats round1 [] =
     Inr \<lparr>characters = 0, words = 0, sentences = 0, paragraphs = 0,
          avg_word_length = IntNum 0, avg_sentence_length = IntNum 0\<rparr>
   \<and> (\<exists>s. get_text_stats round1 t = Inr s
          \<and> (stats_words t = [] \<longrightarrow> avg_word_length s = IntNum 0)
          \<and> (stats_sentences t = [] \<longrightarrow> avg_sentence_length s = IntNum 0))"
proof
  show "get_text_stats round1 [] =
     Inr \<lparr>characters = 0, words = 0, sentences = 0, paragraphs = 0,
          avg_word_length = IntNum 0, avg_sentence_length = IntNum 0\<rparr>"
    by (simp add: get_text_stats_def stats_words_def stats_sentences_def stats_paragraphs_def
        average_def)
next
  obtain a where a: "average round1 (stats_words t \<noteq> [])
      (sum_list (map length (stats_words t))) (length (stats_words t)) = Inr a"
    and a0: "stats_words t = [] \<longrightarrow> a = IntNum 0"
    using average_Inr [of "stats_words t \<noteq> []" "length (stats_words t)" round1
        "sum_list (map length (stats_words t))"] by auto
  obtain b where b: "average round1 (stats_sentences t \<noteq> [])
      (length (stats_words t)) (length (stats_sentences t)) = Inr b"
    and b0: "stats_sentences t = [] \<longrightarrow> b = IntNum 0"
    using average_Inr [of "stats_sentences t \<noteq> []" "length (stats_sentences t)" round1
        "length (stats_words t)"] by auto
  show "\<exists>s. get_text_stats round1 t = Inr s
          \<and> (stats_words t = [] \<longrightarrow> avg_word_length s = IntNum 0)
          \<and> (stats_sentences t = [] \<longrightarrow> avg_sentence_length s = IntNum 0)"
    using a a0 b b0 by (simp add: get_text_stats_def Let_def)
qed

text \<open>
  The text \<open>...\<close> has one word and no sentence, a blank text has neither, and a text
  with both has two float averages.
\<close>

theorem get_text_stats_no_division_by_zero_witness:
  "stats_words (cps '' '') = [] \<and> stats_sentences (cps ''...'') = []
   \<and> (\<exists>s. get_text_stats round_tenth (cps '' '') = Inr s \<and> avg_word_length s = IntNum 0)
   \<and> (\<exists>s. get_text_stats round_tenth (cps ''...'') = Inr s \<and> avg_sentence_length s = IntNum 0)"
proof -
  have h1: "stats_words (cps '' '') = []"
    by (simp add: stats_words_def str_eval)
  have h2: "stats_sentences (cps ''...'') = []"
    by (simp add: stats_sentences_def is_mark_def str_eval)
  show ?thesis
    using get_text_stats_no_division_by_zero [of round_tenth "cps '' ''"]
      get_text_stats_no_division_by_zero [of round_tenth "cps ''...''"] h1 h2
    by auto
qed

section \<open>Properties of the construction of the result\<close>

lemma try_bind_Inr: "try_bind m f = Inr y \<longleftrightarrow> (\<exists>x. m = Inr x \<and> f x = Inr y)"
  by (cases m) auto

lemma keys_value2member: "fst ` set value2member_map = {cps ''low'', cps ''medium'', cps ''high''}"
  by (auto simp: value2member_map_def)

lemma RiskLevel_call_medium: "RiskLevel_call (cps ''medium'') = Inr MEDIUM"
  by (simp add: RiskLevel_call_def value2member_map_def cps_def)

lemma coerce_risk_unrecognized:
  assumes "lower (cps ''medium'') = cps ''medium''"
    and "map_of d key = Some (PStr s)" and "lower s \<notin> {cps ''low'', cps ''medium'', cps ''high''}"
  shows "coerce_risk lower (PDict d) key (cps ''medium'') = Inr MEDIUM"
  using assms
  by (cases "s = []") (simp_all add: coerce_risk_def keys_value2member RiskLevel_call_medium)

lemma coerce_risk_missing:
  assumes "lower (cps ''medium'') = cps ''medium''" and "map_of d key = None"
  shows "coerce_risk lower (PDict d) key (cps ''medium'') = Inr MEDIUM"
  using assms
  by (simp add: coerce_risk_def keys_value2member RiskLevel_call_medium)

lemma make_red_flag_Inr:
  "coerce_risk lower (PDict d) (cps ''severity'') (cps ''medium'') = Inr sev \<Longrightarrow>
   make_red_flag lower (PDict d) =
     Inr \<lparr>clause_text = (case map_of d (cps ''clause_text'') of None \<Rightarrow> PStr [] | Some v \<Rightarrow> v),
          risk_type = (case map_of d (cps ''risk_type'') of None \<Rightarrow> PStr [] | Some v \<Rightarrow> v),
          explanation = (case map_of d (cps ''explanation'') of None \<Rightarrow> PStr [] | Some v \<Rightarrow> v),
          why_risky = (case map_of d (cps ''why_risky'') of None \<Rightarrow> PStr [] | Some v \<Rightarrow> v),
          suggested_alternative = (case map_of d (cps ''suggested_alternative'') of None \<Rightarrow> PStr [] | Some v \<Rightarrow> v),
          severity = sev\<rparr>"
  by (simp add: make_red_flag_def)

lemma make_red_flag_dict:
  "make_red_flag lower (PDict d) = Inr f \<Longrightarrow>
     clause_text f = (case map_of d (cps ''clause_text'') of None \<Rightarrow> PStr [] | Some v \<Rightarrow> v)
   \<and> risk_type f = (case map_of d (cps ''risk_type'') of None \<Rightarrow> PStr [] | Some v \<Rightarrow> v)
   \<and> explanation f = (case map_of d (cps ''explanation'') of None \<Rightarrow> PStr [] | Some v \<Rightarrow> v)
   \<and> why_risky f = (case map_of d (cps ''why_risky'') of None \<Rightarrow> PStr [] | Some v \<Rightarrow> v)
   \<and> suggested_alternative f = (case map_of d (cps ''suggested_alternative'') of None \<Rightarrow> PStr [] | Some v \<Rightarrow> v)"
  by (cases "coerce_risk lower (PDict d) (cps ''severity'') (cps ''medium'')")
     (auto simp: make_red_flag_def)

lemma red_flags_loop_append:
  "red_flags_loop lower acc (xs @ ys) = red_flags_loop lower (red_flags_loop lower acc xs) ys"
  by (induction xs arbitrary: acc) (auto split: sum.splits)

lemma red_flags_loop_acc:
  "red_flags_loop lower acc xs = acc @ red_flags_loop lower [] xs"
proof (induction xs arbitrary: acc)
  case Nil
  show ?case by simp
next
  case (Cons x xs)
  show ?case
  proof (cases "make_red_flag lower x")
    case (Inl e)
    then show ?thesis using Cons [of acc] by simp
  next
    case (Inr f)
    then show ?thesis using Cons [of "acc @ [f]"] Cons [of "[f]"] by simp
  qed
qed

lemma red_flags_loop_skip:
  "make_red_flag lower bad = Inl e \<Longrightarrow>
   red_flags_loop lower [] (xs @ bad # ys) = red_flags_loop lower [] xs @ red_flags_loop lower [] ys"
  using red_flags_loop_acc [of lower "red_flags_loop lower [] xs" ys]
  by (simp add: red_flags_loop_append)

lemma red_flags_loop_keep:
  "make_red_flag lower good = Inr f \<Longrightarrow>
   red_flags_loop lower [] (xs @ good # ys) = red_flags_loop lower [] xs @ f # red_flags_loop lower [] ys"
  using red_flags_loop_acc [of lower "red_flags_loop lower [] xs @ [f]" ys]
  by (simp add: red_flags_loop_append)


lemma create_red_flags:
  assumes "create_analysis_object lower (PDict d) = Inr a"
    and "map_of d (cps ''red_flags'') = Some (PList entries)"
  shows "red_flags a = red_flags_loop lower [] entries"
  using assms by (auto simp: create_analysis_object_def try_bind_Inr)

text \<open>
  Claim C2. Lowercasing leaves the word \<open>medium\<close> as it is. Then, for an entry that is a
  dictionary: a severity that is a string whose lowercase form is none of \<open>low\<close>,
  \<open>medium\<close>, \<open>high\<close> gives a red flag of severity medium, and so does a missing
  severity; each of the five text fields that is absent is the empty string in the red
  flag. In the loop an entry whose construction raises is left out and the entries
  before and after it are processed as if it were not there, while an entry that can be
  constructed appears at its place; the red flags of the result are those of the loop.
\<close>

theorem red_flag_entry_tolerance:
  assumes "lower (cps ''medium'') = cps ''medium''"
  shows
    "(map_of d (cps ''severity'') = Some (PStr s)
        \<and> lower s \<notin> {cps ''low'', cps ''medium'', cps ''high''}
      \<longrightarrow> (\<exists>f. make_red_flag lower (PDict d) = Inr f \<and> severity f = MEDIUM))
     \<and> (map_of d (cps ''severity'') = None
      \<longrightarrow> (\<exists>f. make_red_flag lower (PDict d) = Inr f \<and> severity f = MEDIUM))
     \<and> (make_red_flag lower (PDict d) = Inr f
      \<longrightarrow> (map_of d (cps ''clause_text'') = None \<longrightarrow> clause_text f = PStr [])
        \<and> (map_of d (cps ''risk_type'') = None \<longrightarrow> risk_type f = PStr [])
        \<and> (map_of d (cps ''explanation'') = None \<longrightarrow> explanation f = PStr [])
        \<and> (map_of d (cps ''why_risky'') = None \<longrightarrow> why_risky f = PStr [])
        \<and> (map_of d (cps ''suggested_alternative'') = None
              \<longrightarrow> suggested_alternative f = PStr []))
     \<and> (make_red_flag lower bad = Inl e
      \<longrightarrow> red_flags_loop lower [] (xs @ bad # ys)
            = red_flags_loop lower [] xs @ red_flags_loop lower [] ys)
     \<and> (make_red_flag lower good = Inr g
      \<longrightarrow> red_flags_loop lower [] (xs @ good # ys)
            = red_flags_loop lower [] xs @ g # red_flags_loop lower [] ys)
     \<and> (create_analysis_object lower (PDict dat) = Inr a
          \<and> map_of dat (cps ''red_flags'') = Some (PList entries)
      \<longrightarrow> red_flags a = red_flags_loop lower [] entries)"
proof (intro conjI impI)
  assume "map_of d (cps ''severity'') = Some (PStr s)
      \<and> lower s \<notin> {cps ''low'', cps ''medium'', cps ''high''}"
  then have "coerce_risk lower (PDict d) (cps ''severity'') (cps ''medium'') = Inr MEDIUM"
    using assms by (intro coerce_risk_unrecognized) auto
  then show "\<exists>f. make_red_flag lower (PDict d) = Inr f \<and> severity f = MEDIUM"
    by (simp add: make_red_flag_Inr)
next
  assume "map_of d (cps ''severity'') = None"
  then have "coerce_risk lower (PDict d) (cps ''severity'') (cps ''medium'') = Inr MEDIUM"
    using assms by (intro coerce_risk_missing)
  then show "\<exists>f. make_red_flag lower (PDict d) = Inr f \<and> severity f = MEDIUM"
    by (simp add: make_red_flag_Inr)
next
  assume f: "make_red_flag lower (PDict d) = Inr f"
  note fields = make_red_flag_dict [OF f]
  show "map_of d (cps ''clause_text'') = None \<Longrightarrow> clause_text f = PStr []"
    using fields by simp
  show "map_of d (cps ''risk_type'') = None \<Longrightarrow> risk_type f = PStr []"
    using fields by simp
  show "map_of d (cps ''explanation'') = None \<Longrightarrow> explanation f = PStr []"
    using fields by simp
  show "map_of d (cps ''why_risky'') = None \<Longrightarrow> why_risky f = PStr []"
    using fields by simp
  show "map_of d (cps ''suggested_alternative'') = None \<Longrightarrow> suggested_alternative f = PStr []"
    using fields by simp
next
  assume "make_red_flag lower bad = Inl e"
  then show "red_flags_loop lower [] (xs @ bad # ys)
      = red_flags_loop lower [] xs @ red_flags_loop lower [] ys"
    by (rule red_flags_loop_skip)
next
  assume "make_red_flag lower good = Inr g"
  then show "red_flags_loop lower [] (xs @ good # ys)
      = red_flags_loop lower [] xs @ g # red_flags_loop lower [] ys"
    by (rule red_flags_loop_keep)
next
  assume "create_analysis_object lower (PDict dat) = Inr a
      \<and> map_of dat (cps ''red_flags'') = Some (PList entries)"
  then show "red_flags a = red_flags_loop lower [] entries"
    using create_red_flags by blast
qed

text \<open>
  An entry with the severity \<open>URGENT\<close>, an entry that is the number 3 and an entry
  without a severity: the first and the last give red flags of severity medium, the one
  between them is left out.
\<close>

theorem red_flag_entry_tolerance_witness:
  "ascii_lower (cps ''medium'') = cps ''medium''
   \<and> map_of urgent_entry (cps ''severity'') = Some (PStr (cps ''URGENT''))
   \<and> ascii_lower (cps ''URGENT'') \<notin> {cps ''low'', cps ''medium'', cps ''high''}
   \<and> (\<exists>f. make_red_flag ascii_lower (PDict urgent_entry) = Inr f \<and> severity f = MEDIUM)
   \<and> map_of bare_entry (cps ''severity'') = None
   \<and> (\<exists>f. make_red_flag ascii_lower (PDict bare_entry) = Inr f \<and> severity f = MEDIUM)
   \<and> make_red_flag ascii_lower (PInt 3) = Inl (no_attribute (PInt 3) (cps ''get''))
   \<and> red_flags_loop ascii_lower [] ([PDict urgent_entry] @ PInt 3 # [PDict bare_entry])
       = red_flags_loop ascii_lower [] [PDict urgent_entry]
         @ red_flags_loop ascii_lower [] [PDict bare_entry]"
proof -
  have h0: "ascii_lower (cps ''medium'') = cps ''medium''"
    by (simp add: ascii_lower_def cps_def)
  have h1: "map_of urgent_entry (cps ''severity'') = Some (PStr (cps ''URGENT''))"
    by (simp add: urgent_entry_def)
  have h2: "ascii_lower (cps ''URGENT'') \<notin> {cps ''low'', cps ''medium'', cps ''high''}"
    by (simp add: ascii_lower_def cps_def)
  have h3: "map_of bare_entry (cps ''severity'') = None"
    by (simp add: bare_entry_def cps_def)
  have h4: "make_red_flag ascii_lower (PInt 3) = Inl (no_attribute (PInt 3) (cps ''get''))"
    by (simp add: make_red_flag_def coerce_risk_def)
  note t1 = red_flag_entry_tolerance [where lower = ascii_lower and d = urgent_entry
      and s = "cps ''URGENT''" and bad = "PInt 3" and e = "no_attribute (PInt 3) (cps ''get'')"
      and xs = "[PDict urgent_entry]" and ys = "[PDict bare_entry]", OF h0]
  note t2 = red_flag_entry_tolerance [where lower = ascii_lower and d = bare_entry, OF h0]
  have c1: "\<exists>f. make_red_flag ascii_lower (PDict urgent_entry) = Inr f \<and> severity f = MEDIUM"
    using t1 h1 h2 by blast
  have c2: "\<exists>f. make_red_flag ascii_lower (PDict bare_entry) = Inr f \<and> severity f = MEDIUM"
    using t2 h3 by blast
  have c3: "red_flags_loop ascii_lower [] ([PDict urgent_entry] @ PInt 3 # [PDict bare_entry])
       = red_flags_loop ascii_lower [] [PDict urgent_entry]
         @ red_flags_loop ascii_lower [] [PDict bare_entry]"
    using t1 h4 by blast
  show ?thesis by (intro conjI h0 h1 h2 h3 h4 c1 c2 c3)
qed

text \<open>
  Claim C3 at an input for which it fails. The parsed object
  \<open>{"risk_score": {"fairness": 5}}\<close> gives no analysis: \<open>parse_risk_field\<close> calls
  \<open>lower\<close> on the number 5, and the \<open>AttributeError\<close> leaves \<open>_create_analysis_object\<close>,
  where the claim has the field default to medium. The same happens when \<open>risk_score\<close>
  itself is \<open>null\<close>.
\<close>

theorem create_analysis_object_nonstring_risk:
  "create_analysis_object ascii_lower
     (PDict [(cps ''risk_score'', PDict [(cps ''fairness'', PInt 5)])])
     = Inl (no_attribute (PInt 5) (cps ''lower''))
   \<and> create_analysis_object ascii_lower (PDict [(cps ''risk_score'', PNone)])
     = Inl (no_attribute PNone (cps ''get''))"
  by (simp add: create_analysis_object_def parse_risk_field_def coerce_risk_def
      value2member_map_def RiskLevel_call_def ascii_lower_def cps_def)

section \<open>Properties of response parsing\<close>

lemmas brace_defs = LBRACE_def RBRACE_def FENCE_def

lemma takeWhile_upto: "c \<notin> set a \<Longrightarrow> takeWhile (\<lambda>x. x \<noteq> c) (a @ c # r) = a"
  by (induction a) auto

lemma find_char_first: "c \<notin> set a \<Longrightarrow> find_char c (a @ c # r) = int (length a)"
  by (simp add: find_char_def takeWhile_upto)

lemma rfind_char_last: "c \<notin> set b \<Longrightarrow> rfind_char c (p @ c # b) = int (length p)"
  using takeWhile_upto [of c "rev b" "rev p"] by (simp add: rfind_char_def)

lemma find_char_none: "c \<notin> set t \<Longrightarrow> find_char c t = - 1"
  by (simp add: find_char_def)

lemma brace_slice:
  assumes "LBRACE \<notin> set a" and "RBRACE \<notin> set b"
  shows "find_char LBRACE (a @ LBRACE # m @ RBRACE # b) = int (length a)"
    and "rfind_char RBRACE (a @ LBRACE # m @ RBRACE # b) = int (length a + 1 + length m)"
    and "slice (a @ LBRACE # m @ RBRACE # b) (int (length a)) (int (length a + 1 + length m) + 1)
           = LBRACE # m @ [RBRACE]"
proof -
  show "find_char LBRACE (a @ LBRACE # m @ RBRACE # b) = int (length a)"
    using assms(1) by (rule find_char_first)
  have "rfind_char RBRACE ((a @ LBRACE # m) @ RBRACE # b) = int (length (a @ LBRACE # m))"
    using assms(2) by (rule rfind_char_last)
  then show "rfind_char RBRACE (a @ LBRACE # m @ RBRACE # b) = int (length a + 1 + length m)"
    by simp
  show "slice (a @ LBRACE # m @ RBRACE # b) (int (length a)) (int (length a + 1 + length m) + 1)
           = LBRACE # m @ [RBRACE]"
    by (simp add: slice_def nat_add_distrib)
qed

lemma brace_decompose:
  assumes "find_char LBRACE t \<noteq> - 1" and "rfind_char RBRACE t \<noteq> - 1"
    and "rfind_char RBRACE t > find_char LBRACE t"
  shows "\<exists>a m b. t = a @ LBRACE # m @ RBRACE # b \<and> LBRACE \<notin> set a \<and> RBRACE \<notin> set b"
proof -
  have L: "LBRACE \<in> set t" using assms(1) by (auto simp: find_char_def split: if_splits)
  have R: "RBRACE \<in> set t" using assms(2) by (auto simp: rfind_char_def split: if_splits)
  obtain a r where a: "t = a @ LBRACE # r" "LBRACE \<notin> set a"
    using split_list_first [OF L] by blast
  obtain p b where p: "t = p @ RBRACE # b" "RBRACE \<notin> set b"
    using split_list_last [OF R] by blast
  have "find_char LBRACE t = int (length a)" using a find_char_first by simp
  moreover have "rfind_char RBRACE t = int (length p)" using p rfind_char_last by simp
  ultimately have lt: "length a < length p" using assms(3) by simp
  have eq: "a @ LBRACE # r = p @ RBRACE # b" using a p by simp
  define us where "us = drop (length a) p"
  have "take (length a) (a @ LBRACE # r) = take (length a) (p @ RBRACE # b)"
    using eq by simp
  then have "a = take (length a) p" using lt by simp
  then have pa: "p = a @ us" unfolding us_def by (metis append_take_drop_id)
  have ne: "us \<noteq> []" using lt by (simp add: us_def)
  have us: "us @ RBRACE # b = LBRACE # r" using eq pa by simp
  obtain m where "us = LBRACE # m" using us ne by (cases us) auto
  then have "t = a @ LBRACE # m @ RBRACE # b" using p pa by simp
  then show ?thesis using a(2) p(2) by blast
qed

lemma split_on_set: "p \<in> set (split_on sep cur t) \<Longrightarrow> set p \<subseteq> set cur \<union> set t"
proof (induction sep cur t rule: split_on.induct)
  case (1 sep cur)
  then show ?case by simp
next
  case (2 sep cur c r)
  show ?case
  proof (cases "prefix sep (c # r)")
    case True
    then have "p = cur \<or> p \<in> set (split_on sep [] (drop (length sep - 1) r))" using 2(3) by simp
    then show ?thesis
    proof
      assume "p = cur" then show ?thesis by auto
    next
      assume "p \<in> set (split_on sep [] (drop (length sep - 1) r))"
      then have "set p \<subseteq> set [] \<union> set (drop (length sep - 1) r)" using 2(1) True by simp
      then show ?thesis using set_drop_subset [of "length sep - 1" r] by auto
    qed
  next
    case False
    then have "p \<in> set (split_on sep (cur @ [c]) r)" using 2(3) by simp
    then have "set p \<subseteq> set (cur @ [c]) \<union> set r" using 2(2) False by simp
    then show ?thesis by auto
  qed
qed

lemma strip_fence_no_brace: "LBRACE \<notin> set t \<Longrightarrow> strip_fence t = t"
proof -
  assume n: "LBRACE \<notin> set t"
  have "find (\<lambda>p. prefix [LBRACE] (strip p)) (split_on FENCE [] t) = None"
  proof -
    have "\<not> prefix [LBRACE] (strip p)" if "p \<in> set (split_on FENCE [] t)" for p
    proof
      assume "prefix [LBRACE] (strip p)"
      then have "LBRACE \<in> set (strip p)" by (auto simp: prefix_def)
      then have "LBRACE \<in> set p" using set_strip by blast
      then show False using split_on_set [OF that] n by auto
    qed
    then show ?thesis by (simp add: find_None_iff)
  qed
  then show ?thesis by (simp add: strip_fence_def)
qed

lemma parse_json_text_no_brace:
  "LBRACE \<notin> set t \<Longrightarrow> loads t = Inl e \<Longrightarrow> class_of e = JSONDecodeError \<Longrightarrow>
   parse_json_text loads t = Inl parse_failed"
  by (simp add: parse_json_text_def find_char_none)

lemma parse_json_text_escape:
  "loads t = Inl e \<Longrightarrow> class_of e \<noteq> JSONDecodeError \<Longrightarrow> parse_json_text loads t = Inl e"
  by (simp add: parse_json_text_def)

lemma parse_response_empty: "response_text r = [] \<Longrightarrow> parse_response loads r = Inl no_output"
  by (simp add: parse_response_def)

lemma parse_response_nonempty:
  "response_text r \<noteq> [] \<Longrightarrow>
   parse_response loads r = parse_json_text loads (strip_fence (strip (response_text r)))"
  by (simp add: parse_response_def Let_def)

lemma parse_json_text_candidate:
  assumes "loads t = Inl e" and "class_of e = JSONDecodeError"
    and "t = a @ LBRACE # m @ RBRACE # b"
    and "LBRACE \<notin> set a" and "RBRACE \<notin> set b"
  shows "parse_json_text loads t =
     (case loads (LBRACE # m @ [RBRACE]) of
        Inr v \<Rightarrow> Inr v
      | Inl e2 \<Rightarrow> if class_of e2 \<noteq> JSONDecodeError then Inl e2 else Inl parse_failed)"
proof -
  note bs = brace_slice [OF assms(4,5), of m, folded assms(3)]
  have cond: "find_char LBRACE t \<noteq> - 1 \<and> rfind_char RBRACE t \<noteq> - 1
      \<and> rfind_char RBRACE t > find_char LBRACE t"
    unfolding bs(1,2) by simp
  have sl: "slice t (find_char LBRACE t) (rfind_char RBRACE t + 1) = LBRACE # m @ [RBRACE]"
    unfolding bs(1,2) by (rule bs(3))
  show ?thesis
    unfolding parse_json_text_def Let_def using assms(1,2) cond by (simp add: sl)
qed

lemma parse_json_text_no_candidate:
  assumes "loads t = Inl e" and "class_of e = JSONDecodeError"
    and "\<forall>a m b. t \<noteq> a @ LBRACE # m @ RBRACE # b"
  shows "parse_json_text loads t = Inl parse_failed"
proof -
  have "\<not> (find_char LBRACE t \<noteq> - 1 \<and> rfind_char RBRACE t \<noteq> - 1
      \<and> rfind_char RBRACE t > find_char LBRACE t)"
    using brace_decompose [of t] assms(3) by blast
  then show ?thesis using assms(1,2) by (auto simp: parse_json_text_def Let_def)
qed

text \<open>
  What \<open>_parse_response\<close> does, case by case. Parsing works on the text of the response.
  An empty text raises \<open>RuntimeError\<close> (no output). Otherwise the text is stripped and, if
  it starts with a code fence, replaced by the first piece between fences that starts
  with an opening brace once stripped; it is kept when no piece does, and when it does
  not start with a fence. If the decoder accepts the result, its value is returned. If the
  decoder raises \<open>JSONDecodeError\<close> and the result has an opening brace before a closing
  brace, the substring from the first opening brace to the last closing brace, both
  included, is decoded and its value returned; if the decoder raises \<open>JSONDecodeError\<close>
  again, or there is no such substring, \<open>RuntimeError\<close> (failed to parse) is raised, in
  particular for a text without an opening brace. An exception of the decoder of any
  other class is not handled and leaves the function as it is.
\<close>

theorem parse_response_fallback:
  "(response_text r = [] \<longrightarrow> parse_response loads r = Inl no_output)
   \<and> (response_text r \<noteq> [] \<and> loads (strip_fence (strip (response_text r))) = Inr d
        \<longrightarrow> parse_response loads r = Inr d)
   \<and> (response_text r \<noteq> [] \<and> loads (strip_fence (strip (response_text r))) = Inl e
        \<and> class_of e = JSONDecodeError
        \<and> strip_fence (strip (response_text r)) = a @ LBRACE # m @ RBRACE # b
        \<and> LBRACE \<notin> set a \<and> RBRACE \<notin> set b
        \<longrightarrow> parse_response loads r =
              (case loads (LBRACE # m @ [RBRACE]) of
                 Inr v \<Rightarrow> Inr v
               | Inl e2 \<Rightarrow> if class_of e2 \<noteq> JSONDecodeError then Inl e2 else Inl parse_failed))
   \<and> (response_text r \<noteq> [] \<and> loads (strip_fence (strip (response_text r))) = Inl e
        \<and> class_of e = JSONDecodeError
        \<and> (\<forall>a m b. strip_fence (strip (response_text r)) \<noteq> a @ LBRACE # m @ RBRACE # b)
        \<longrightarrow> parse_response loads r = Inl parse_failed)
   \<and> (response_text r \<noteq> [] \<and> LBRACE \<notin> set (response_text r)
        \<and> loads (strip (response_text r)) = Inl e \<and> class_of e = JSONDecodeError
        \<longrightarrow> parse_response loads r = Inl parse_failed)
   \<and> (response_text r \<noteq> [] \<and> loads (strip_fence (strip (response_text r))) = Inl e
        \<and> class_of e \<noteq> JSONDecodeError
        \<longrightarrow> parse_response loads r = Inl e)
   \<and> (prefix FENCE t \<and> find (\<lambda>p. prefix [LBRACE] (strip p)) (split_on FENCE [] t) = Some p
        \<longrightarrow> strip_fence t = strip p)
   \<and> (prefix FENCE t \<and> find (\<lambda>p. prefix [LBRACE] (strip p)) (split_on FENCE [] t) = None
        \<longrightarrow> strip_fence t = t)
   \<and> (\<not> prefix FENCE t \<longrightarrow> strip_fence t = t)"
proof (intro conjI impI)
  assume "response_text r = []"
  then show "parse_response loads r = Inl no_output" by (rule parse_response_empty)
next
  assume "response_text r \<noteq> [] \<and> loads (strip_fence (strip (response_text r))) = Inr d"
  then show "parse_response loads r = Inr d"
    by (simp add: parse_response_nonempty parse_json_text_def)
next
  assume h: "response_text r \<noteq> [] \<and> loads (strip_fence (strip (response_text r))) = Inl e
        \<and> class_of e = JSONDecodeError
        \<and> strip_fence (strip (response_text r)) = a @ LBRACE # m @ RBRACE # b
        \<and> LBRACE \<notin> set a \<and> RBRACE \<notin> set b"
  then have "parse_json_text loads (strip_fence (strip (response_text r))) =
      (case loads (LBRACE # m @ [RBRACE]) of
         Inr v \<Rightarrow> Inr v
       | Inl e2 \<Rightarrow> if class_of e2 \<noteq> JSONDecodeError then Inl e2 else Inl parse_failed)"
    by (intro parse_json_text_candidate [where e = e]) auto
  then show "parse_response loads r =
      (case loads (LBRACE # m @ [RBRACE]) of
         Inr v \<Rightarrow> Inr v
       | Inl e2 \<Rightarrow> if class_of e2 \<noteq> JSONDecodeError then Inl e2 else Inl parse_failed)"
    using h by (simp add: parse_response_nonempty)
next
  assume h: "response_text r \<noteq> [] \<and> loads (strip_fence (strip (response_text r))) = Inl e
        \<and> class_of e = JSONDecodeError
        \<and> (\<forall>a m b. strip_fence (strip (response_text r)) \<noteq> a @ LBRACE # m @ RBRACE # b)"
  then have "parse_json_text loads (strip_fence (strip (response_text r))) = Inl parse_failed"
    by (intro parse_json_text_no_candidate [where e = e]) auto
  then show "parse_response loads r = Inl parse_failed"
    using h by (simp add: parse_response_nonempty)
next
  assume h: "response_text r \<noteq> [] \<and> LBRACE \<notin> set (response_text r)
        \<and> loads (strip (response_text r)) = Inl e \<and> class_of e = JSONDecodeError"
  then have n: "LBRACE \<notin> set (strip (response_text r))"
    using set_strip [of "response_text r"] by blast
  then have "strip_fence (strip (response_text r)) = strip (response_text r)"
    by (rule strip_fence_no_brace)
  then show "parse_response loads r = Inl parse_failed"
    using h n by (simp add: parse_response_nonempty parse_json_text_no_brace [where e = e])
next
  assume h: "response_text r \<noteq> [] \<and> loads (strip_fence (strip (response_text r))) = Inl e
        \<and> class_of e \<noteq> JSONDecodeError"
  then show "parse_response loads r = Inl e"
    by (simp add: parse_response_nonempty parse_json_text_escape)
next
  assume "prefix FENCE t \<and> find (\<lambda>p. prefix [LBRACE] (strip p)) (split_on FENCE [] t) = Some p"
  then show "strip_fence t = strip p" by (simp add: strip_fence_def)
next
  assume "prefix FENCE t \<and> find (\<lambda>p. prefix [LBRACE] (strip p)) (split_on FENCE [] t) = None"
  then show "strip_fence t = t" by (simp add: strip_fence_def)
next
  assume "\<not> prefix FENCE t"
  then show "strip_fence t = t" by (simp add: strip_fence_def)
qed

lemmas parse_eval = response_text_def extract_text_from_response_def text_response_def
  strip_fence_def brace_defs str_eval

text \<open>The sample decoder on a text shorter than the two long documents.\<close>

lemma json_loads_sample_short:
  assumes "length t < 1000"
  shows "json_loads_sample t =
     (if t = cps ''[]'' then Inr (PList [])
      else if t = cps ''{\"summary\":\"x\"}''
      then Inr (PDict [(cps ''summary'', PStr (cps ''x''))])
      else if t = cps ''{\"summary\":\"ok\",\"red_flags\":[]}''
      then Inr (PDict [(cps ''summary'', PStr (cps ''ok'')), (cps ''red_flags'', PList [])])
      else if t = cps ''{\"risk_score\":{\"fairness\":5}}''
      then Inr (PDict [(cps ''risk_score'', PDict [(cps ''fairness'', PInt 5)])])
      else Inl (Raised JSONDecodeError (cps ''Expecting value: line 1 column 1 (char 0)'')))"
proof -
  have "t \<noteq> deep_text" "t \<noteq> long_number"
    using assms by (auto simp: deep_text_def long_number_def)
  then show ?thesis by (simp add: json_loads_sample_def)
qed

lemma json_loads_sample_deep:
  "json_loads_sample deep_text = Inl (Raised RecursionError
     (cps ''maximum recursion depth exceeded while decoding a JSON array from a unicode string''))"
proof -
  have "deep_text \<noteq> t" if "length t < 1000" for t
    using that by (auto simp: deep_text_def)
  then show ?thesis by (simp add: json_loads_sample_def cps_def)
qed

lemma json_loads_sample_long:
  "json_loads_sample long_number = Inl (Raised ValueError
     (cps ''Exceeds the limit (4300 digits) for integer string conversion: value has 4301 digits; use sys.set_int_max_str_digits() to increase the limit''))"
proof -
  have "long_number \<noteq> t" if "length t < 4301" for t
    using that by (auto simp: long_number_def)
  then show ?thesis by (simp add: json_loads_sample_def cps_def deep_text_def)
qed

lemma response_text_text_response: "response_text (text_response t) = t"
  by (simp add: response_text_def extract_text_from_response_def text_response_def Let_def)

lemma strip_replicate: "\<not> py_isspace c \<Longrightarrow> strip (replicate n c) = replicate n c"
  by (cases n) (simp_all add: strip_def lstrip_def rstrip_def replicate_append_same)

lemma strip_fence_replicate: "c \<noteq> LBRACE \<Longrightarrow> strip_fence (replicate n c) = replicate n c"
  by (rule strip_fence_no_brace) auto

lemma fenced_text:
  "strip_fence (strip (response_text (text_response
      (FENCE @ [NL] @ cps ''{\"summary\":\"x\"}'' @ [NL] @ FENCE))))
     = cps ''{\"summary\":\"x\"}''"
  by (simp add: parse_eval)

lemma prose_text:
  "strip_fence (strip (response_text (text_response
      (cps ''Here is the result: {\"summary\":\"x\"} Thanks!''))))
     = cps ''Here is the result: '' @ LBRACE # cps ''\"summary\":\"x\"'' @ RBRACE # cps '' Thanks!''"
  by (simp add: parse_eval)

text \<open>
  An empty response, an answer inside a code fence, an answer with prose around the
  object, an answer without any JSON, and an answer nested too deeply.
\<close>

theorem parse_response_fallback_witness:
  "parse_response json_loads_sample (text_response []) = Inl no_output
   \<and> parse_response json_loads_sample
        (text_response (FENCE @ [NL] @ cps ''{\"summary\":\"x\"}'' @ [NL] @ FENCE))
      = Inr (PDict [(cps ''summary'', PStr (cps ''x''))])
   \<and> parse_response json_loads_sample
        (text_response (cps ''Here is the result: {\"summary\":\"x\"} Thanks!''))
      = Inr (PDict [(cps ''summary'', PStr (cps ''x''))])
   \<and> parse_response json_loads_sample (text_response (cps ''no json here'')) = Inl parse_failed
   \<and> strip_fence (FENCE @ cps ''json'') = FENCE @ cps ''json''"
proof -
  let ?d = "PDict [(cps ''summary'', PStr (cps ''x''))]"
  let ?e = "Raised JSONDecodeError (cps ''Expecting value: line 1 column 1 (char 0)'')"
  let ?fenced = "text_response (FENCE @ [NL] @ cps ''{\"summary\":\"x\"}'' @ [NL] @ FENCE)"
  let ?prose = "text_response (cps ''Here is the result: {\"summary\":\"x\"} Thanks!'')"
  let ?none = "text_response (cps ''no json here'')"
  have e: "response_text (text_response []) = []"
    by (simp add: parse_eval)
  have f: "response_text ?fenced \<noteq> []
      \<and> json_loads_sample (strip_fence (strip (response_text ?fenced))) = Inr ?d"
    unfolding fenced_text by (simp add: parse_eval json_loads_sample_short)
  have p1: "response_text ?prose \<noteq> []"
    by (simp add: parse_eval)
  have p2: "json_loads_sample (strip_fence (strip (response_text ?prose))) = Inl ?e"
    unfolding prose_text by (simp add: parse_eval json_loads_sample_short)
  have pe: "class_of ?e = JSONDecodeError" by simp
  have p3: "LBRACE \<notin> set (cps ''Here is the result: '')"
    and p4: "RBRACE \<notin> set (cps '' Thanks!'')"
    by (simp_all add: parse_eval)
  have pc: "json_loads_sample (LBRACE # cps ''\"summary\":\"x\"'' @ [RBRACE]) = Inr ?d"
    by (simp add: json_loads_sample_short brace_defs cps_def)
  have n: "response_text ?none \<noteq> [] \<and> LBRACE \<notin> set (response_text ?none)
      \<and> json_loads_sample (strip (response_text ?none)) = Inl ?e \<and> class_of ?e = JSONDecodeError"
    by (simp add: parse_eval json_loads_sample_short)
  have k: "prefix FENCE (FENCE @ cps ''json'')
      \<and> find (\<lambda>p. prefix [LBRACE] (strip p)) (split_on FENCE [] (FENCE @ cps ''json'')) = None"
    by (simp add: parse_eval)
  have 1: "parse_response json_loads_sample (text_response []) = Inl no_output"
    using parse_response_fallback [where r = "text_response []" and loads = json_loads_sample] e
    by blast
  note second = parse_response_fallback [where r = ?fenced and loads = json_loads_sample
        and d = ?d, THEN conjunct2, THEN conjunct1, rule_format]
  have 2: "parse_response json_loads_sample ?fenced = Inr ?d"
    using second [OF f] .
  note third = parse_response_fallback [where r = ?prose and loads = json_loads_sample
        and e = ?e and a = "cps ''Here is the result: ''" and m = "cps ''\"summary\":\"x\"''"
        and b = "cps '' Thanks!''", THEN conjunct2, THEN conjunct2, THEN conjunct1, rule_format]
  have 3: "parse_response json_loads_sample ?prose = Inr ?d"
    using third [OF conjI [OF p1 conjI [OF p2 conjI [OF pe conjI [OF prose_text conjI [OF p3 p4]]]]]]
    unfolding pc by simp
  note fifth = parse_response_fallback [where r = ?none and loads = json_loads_sample
        and e = ?e, THEN conjunct2, THEN conjunct2, THEN conjunct2, THEN conjunct2,
        THEN conjunct1, rule_format]
  have 4: "parse_response json_loads_sample ?none = Inl parse_failed"
    using fifth [OF n] .
  note eighth = parse_response_fallback [where t = "FENCE @ cps ''json''",
        THEN conjunct2, THEN conjunct2, THEN conjunct2, THEN conjunct2, THEN conjunct2,
        THEN conjunct2, THEN conjunct2, THEN conjunct1, rule_format]
  have 5: "strip_fence (FENCE @ cps ''json'') = FENCE @ cps ''json''"
    using eighth [OF k] .
  show ?thesis by (intro conjI 1 2 3 4 5)
qed

text \<open>
  Claim C1 says that parsing raises the parse error whenever every attempt fails, in
  particular on input that has no brace at all. The code does not when the decoder fails
  with an exception other than \<open>JSONDecodeError\<close>. A text of a thousand opening brackets
  has no brace and is no JSON: the decoder raises \<open>RecursionError\<close>, the handler of
  \<open>_parse_response\<close> catches \<open>JSONDecodeError\<close> only, and \<open>RecursionError\<close> leaves the
  function in place of \<open>RuntimeError\<close> (failed to parse). On an integer of 4301 digits it
  is \<open>ValueError\<close> that leaves the function.
\<close>

theorem parse_response_decoder_exception_escapes:
  "LBRACE \<notin> set deep_text \<and> RBRACE \<notin> set deep_text
   \<and> parse_response json_loads_sample (text_response deep_text)
      = Inl (Raised RecursionError
          (cps ''maximum recursion depth exceeded while decoding a JSON array from a unicode string''))
   \<and> LBRACE \<notin> set long_number \<and> RBRACE \<notin> set long_number
   \<and> parse_response json_loads_sample (text_response long_number)
      = Inl (Raised ValueError
          (cps ''Exceeds the limit (4300 digits) for integer string conversion: value has 4301 digits; use sys.set_int_max_str_digits() to increase the limit''))"
proof -
  have s1: "strip_fence (strip deep_text) = deep_text"
    by (simp add: deep_text_def strip_replicate strip_fence_replicate py_isspace_def
        LBRACKET_def LBRACE_def)
  have s2: "strip_fence (strip long_number) = long_number"
    by (simp add: long_number_def strip_replicate strip_fence_replicate py_isspace_def
        DIGIT_ONE_def LBRACE_def)
  have n1: "deep_text \<noteq> []" by (simp add: deep_text_def)
  have n2: "long_number \<noteq> []" by (simp add: long_number_def)
  have b1: "LBRACE \<notin> set deep_text \<and> RBRACE \<notin> set deep_text"
    by (simp add: deep_text_def LBRACKET_def brace_defs)
  have b2: "LBRACE \<notin> set long_number \<and> RBRACE \<notin> set long_number"
    by (simp add: long_number_def DIGIT_ONE_def brace_defs)
  have p1: "parse_response json_loads_sample (text_response deep_text)
      = Inl (Raised RecursionError
          (cps ''maximum recursion depth exceeded while decoding a JSON array from a unicode string''))"
    using n1 by (simp add: parse_response_def response_text_text_response s1
        parse_json_text_def json_loads_sample_deep)
  have p2: "parse_response json_loads_sample (text_response long_number)
      = Inl (Raised ValueError
          (cps ''Exceeds the limit (4300 digits) for integer string conversion: value has 4301 digits; use sys.set_int_max_str_digits() to increase the limit''))"
    using n2 by (simp add: parse_response_def response_text_text_response s2
        parse_json_text_def json_loads_sample_long)
  show ?thesis using b1 b2 p1 p2 by blast
qed

section \<open>Failures of the pipeline\<close>

lemma call_gpt_failure:
  "responses_create self
     \<lparr>model = model_name self, system_content = s, user_content = u, max_output_tokens = 1200\<rparr>
     = Inl e \<Longrightarrow>
   call_gpt self s u = Inl (Raised RuntimeError (cps ''AI analysis failed: '' @ message_of e))"
  by (simp add: call_gpt_def)

lemma wrapped_differs: "Raised RuntimeError (cps ''AI analysis failed: '' @ message_of e) \<noteq> e"
  by (cases e) (simp add: cps_def)

lemma analyze_after_call:
  "call_gpt self build_system_prompt (build_user_prompt ct) = Inr r \<Longrightarrow>
   analyze self loads lower t0 t1 ct =
     try_bind (parse_response loads r) (\<lambda>parsed.
     try_bind (create_analysis_object lower parsed) (\<lambda>analysis.
     Inr (analysis\<lparr>processing_time := t1 - t0\<rparr>)))"
  by (simp add: analyze_def)

lemma call_gpt_success:
  "responses_create self
     \<lparr>model = model_name self, system_content = s, user_content = u, max_output_tokens = 1200\<rparr>
     = Inr r \<Longrightarrow> call_gpt self s u = Inr r"
  by (simp add: call_gpt_def)

lemma parse_json_text_failure:
  assumes "parse_json_text loads t = Inl x"
  shows "x = parse_failed \<or> (\<exists>t. loads t = Inl x \<and> class_of x \<noteq> JSONDecodeError)"
proof (cases "loads t")
  case (Inr d)
  then show ?thesis using assms by (simp add: parse_json_text_def)
next
  case (Inl e)
  show ?thesis
  proof (cases "class_of e = JSONDecodeError")
    case False
    then have "x = e" using assms Inl by (simp add: parse_json_text_def)
    then show ?thesis using Inl False by blast
  next
    case True
    let ?c = "slice t (find_char LBRACE t) (rfind_char RBRACE t + 1)"
    show ?thesis
    proof (cases "find_char LBRACE t \<noteq> - 1 \<and> rfind_char RBRACE t \<noteq> - 1
        \<and> rfind_char RBRACE t > find_char LBRACE t")
      case False
      then have "x = parse_failed"
        using assms Inl True by (auto simp: parse_json_text_def Let_def)
      then show ?thesis by simp
    next
      case cond: True
      show ?thesis
      proof (cases "loads ?c")
        case (Inr d)
        then show ?thesis using assms Inl True cond by (simp add: parse_json_text_def Let_def)
      next
        case e2: (Inl e2)
        show ?thesis
        proof (cases "class_of e2 = JSONDecodeError")
          case True
          then have "x = parse_failed"
            using assms Inl \<open>class_of e = JSONDecodeError\<close> cond e2
            by (simp add: parse_json_text_def Let_def)
          then show ?thesis by simp
        next
          case False
          then have "x = e2"
            using assms Inl \<open>class_of e = JSONDecodeError\<close> cond e2
            by (simp add: parse_json_text_def Let_def)
          then show ?thesis using e2 False by blast
        qed
      qed
    qed
  qed
qed

lemma parse_response_failure:
  assumes "parse_response loads r = Inl x"
  shows "x = no_output \<or> x = parse_failed
     \<or> (\<exists>t. loads t = Inl x \<and> class_of x \<noteq> JSONDecodeError)"
proof (cases "response_text r = []")
  case True
  then show ?thesis using assms by (simp add: parse_response_def)
next
  case False
  then have "parse_json_text loads (strip_fence (strip (response_text r))) = Inl x"
    using assms by (simp add: parse_response_def Let_def)
  then show ?thesis using parse_json_text_failure by blast
qed

text \<open>
  Claim C4, as amended. The code raises built-in exceptions. When the remote call
  raises, \<open>analyze\<close> raises \<open>RuntimeError\<close> with the message \<open>AI analysis failed:\<close> followed
  by the text of the original exception, and never that exception itself. When the call
  returns, an empty response text makes \<open>analyze\<close> raise \<open>RuntimeError\<close> (no output) and a
  text that the decoder rejects with \<open>JSONDecodeError\<close>, also after the substring step,
  \<open>RuntimeError\<close> (failed to parse): a failure of parsing is one of these two, or else an
  exception of another class that the decoder itself raised. In \<open>extract_text\<close> a
  missing file raises \<open>FileNotFoundError\<close>, an unsupported extension \<open>ValueError\<close>, and a
  failure of the PDF or DOCX library \<open>Exception\<close> with the message
  \<open>PDF extraction failed:\<close> or \<open>DOCX extraction failed:\<close> followed by the text of the
  original exception.
\<close>

theorem pipeline_failures:
  "(responses_create self
       \<lparr>model = model_name self, system_content = build_system_prompt,
        user_content = build_user_prompt ct, max_output_tokens = 1200\<rparr> = Inl e
      \<longrightarrow> analyze self loads lower t0 t1 ct
            = Inl (Raised RuntimeError (cps ''AI analysis failed: '' @ message_of e))
        \<and> analyze self loads lower t0 t1 ct \<noteq> Inl e)
   \<and> (responses_create self
       \<lparr>model = model_name self, system_content = build_system_prompt,
        user_content = build_user_prompt ct, max_output_tokens = 1200\<rparr> = Inr r
        \<and> parse_response loads r = Inl x
      \<longrightarrow> analyze self loads lower t0 t1 ct = Inl x
        \<and> (x = no_output \<or> x = parse_failed
            \<or> (\<exists>t. loads t = Inl x \<and> class_of x \<noteq> JSONDecodeError)))
   \<and> class_of no_output = RuntimeError \<and> class_of parse_failed = RuntimeError
   \<and> (\<not> path_exists w f
      \<longrightarrow> extract_text w u (init_processor flag) f clean
            = Inl (Raised FileNotFoundError (cps ''File not found: '' @ f)))
   \<and> (path_exists w f
        \<and> ucd_lower u (path_suffix w f) \<notin> set (supported_formats (init_processor flag))
      \<longrightarrow> extract_text w u (init_processor flag) f clean
            = Inl (Raised ValueError
                (cps ''Unsupported file format: '' @ ucd_lower u (path_suffix w f))))
   \<and> (path_exists w f \<and> ucd_lower u (path_suffix w f) = cps ''.pdf''
        \<and> pdf_try (pdf_reader w f) = Inl pe
      \<longrightarrow> extract_text w u (init_processor flag) f clean
            = Inl (Raised Exception (cps ''PDF extraction failed: '' @ message_of pe)))
   \<and> (path_exists w f \<and> ucd_lower u (path_suffix w f) \<in> {cps ''.docx'', cps ''.doc''}
        \<and> docx_try (docx_document w f) = Inl de
      \<longrightarrow> extract_text w u (init_processor flag) f clean
            = Inl (Raised Exception (cps ''DOCX extraction failed: '' @ message_of de)))"
proof (intro conjI impI)
  assume a: "responses_create self
       \<lparr>model = model_name self, system_content = build_system_prompt,
        user_content = build_user_prompt ct, max_output_tokens = 1200\<rparr> = Inl e"
  show 1: "analyze self loads lower t0 t1 ct
      = Inl (Raised RuntimeError (cps ''AI analysis failed: '' @ message_of e))"
    using call_gpt_failure [OF a] by (simp add: analyze_def)
  show "analyze self loads lower t0 t1 ct \<noteq> Inl e"
    unfolding 1 using wrapped_differs [of e] by simp
next
  assume a: "responses_create self
       \<lparr>model = model_name self, system_content = build_system_prompt,
        user_content = build_user_prompt ct, max_output_tokens = 1200\<rparr> = Inr r
        \<and> parse_response loads r = Inl x"
  then have "call_gpt self build_system_prompt (build_user_prompt ct) = Inr r"
    by (intro call_gpt_success) simp
  then show "analyze self loads lower t0 t1 ct = Inl x"
    using a by (simp add: analyze_after_call)
  show "x = no_output \<or> x = parse_failed
      \<or> (\<exists>t. loads t = Inl x \<and> class_of x \<noteq> JSONDecodeError)"
    using parse_response_failure [of loads r x] a by simp
next
  show "class_of no_output = RuntimeError" by (simp add: no_output_def)
next
  show "class_of parse_failed = RuntimeError" by (simp add: parse_failed_def)
next
  assume "\<not> path_exists w f"
  then show "extract_text w u (init_processor flag) f clean
      = Inl (Raised FileNotFoundError (cps ''File not found: '' @ f))"
    by (simp add: extract_text_def)
next
  assume "path_exists w f
      \<and> ucd_lower u (path_suffix w f) \<notin> set (supported_formats (init_processor flag))"
  then show "extract_text w u (init_processor flag) f clean
      = Inl (Raised ValueError (cps ''Unsupported file format: '' @ ucd_lower u (path_suffix w f)))"
    by (simp add: extract_text_def Let_def)
next
  assume "path_exists w f \<and> ucd_lower u (path_suffix w f) = cps ''.pdf''
      \<and> pdf_try (pdf_reader w f) = Inl pe"
  then show "extract_text w u (init_processor flag) f clean
      = Inl (Raised Exception (cps ''PDF extraction failed: '' @ message_of pe))"
    by (simp add: extract_text_def Let_def init_processor_def extract_from_pdf_def)
next
  assume a: "path_exists w f \<and> ucd_lower u (path_suffix w f) \<in> {cps ''.docx'', cps ''.doc''}
      \<and> docx_try (docx_document w f) = Inl de"
  then have "ucd_lower u (path_suffix w f) \<noteq> cps ''.pdf''"
    by (auto simp: cps_def)
  then show "extract_text w u (init_processor flag) f clean
      = Inl (Raised Exception (cps ''DOCX extraction failed: '' @ message_of de))"
    using a by (auto simp: extract_text_def Let_def init_processor_def extract_from_docx_def)
qed

lemmas world_eval = world_sample_def ucd_excerpt_def ascii_lower_def init_processor_def cps_def

text \<open>
  A remote call that times out, an answer that is no JSON, a missing file, a text file,
  and two documents that their libraries cannot open.
\<close>

theorem pipeline_failures_witness:
  "analyze timeout_analyzer json_loads_sample ascii_lower 0 1 (cps ''Lease'')
     = Inl (Raised RuntimeError (cps ''AI analysis failed: '' @ cps ''Request timed out.''))
   \<and> analyze (answering_analyzer (cps ''I cannot help with that'')) json_loads_sample
        ascii_lower 0 1 (cps ''Lease'') = Inl parse_failed
   \<and> extract_text world_sample ucd_excerpt (init_processor True) (cps ''gone.pdf'') True
     = Inl (Raised FileNotFoundError (cps ''File not found: '' @ cps ''gone.pdf''))
   \<and> extract_text world_sample ucd_excerpt (init_processor True) (cps ''notes.txt'') True
     = Inl (Raised ValueError (cps ''Unsupported file format: '' @ cps ''.txt''))
   \<and> extract_text world_sample ucd_excerpt (init_processor True) (cps ''scan.pdf'') True
     = Inl (Raised Exception (cps ''PDF extraction failed: '' @ cps ''EOF marker not found''))
   \<and> extract_text world_sample ucd_excerpt (init_processor True) (cps ''memo.docx'') True
     = Inl (Raised Exception (cps ''DOCX extraction failed: '' @ cps ''Package not found''))"
proof -
  let ?req = "\<lambda>self. \<lparr>model = model_name self, system_content = build_system_prompt,
      user_content = build_user_prompt (cps ''Lease''), max_output_tokens = 1200\<rparr>"
  let ?a = "answering_analyzer (cps ''I cannot help with that'')"
  let ?e = "Raised (Library (cps ''APITimeoutError'')) (cps ''Request timed out.'')"
  have h1: "responses_create timeout_analyzer (?req timeout_analyzer) = Inl ?e"
    by (simp add: timeout_analyzer_def)
  have h2: "responses_create ?a (?req ?a) = Inr (text_response (cps ''I cannot help with that''))
      \<and> parse_response json_loads_sample (text_response (cps ''I cannot help with that''))
          = Inl parse_failed"
    by (simp add: answering_analyzer_def parse_response_def parse_json_text_def parse_eval
        json_loads_sample_short find_char_def rfind_char_def)
  have h3: "\<not> path_exists world_sample (cps ''gone.pdf'')"
    by (simp add: world_eval)
  have s4: "ucd_lower ucd_excerpt (path_suffix world_sample (cps ''notes.txt'')) = cps ''.txt''"
    by (simp add: world_eval)
  have h4: "path_exists world_sample (cps ''notes.txt'')
      \<and> ucd_lower ucd_excerpt (path_suffix world_sample (cps ''notes.txt''))
          \<notin> set (supported_formats (init_processor True))"
    by (simp add: world_eval)
  have h5: "path_exists world_sample (cps ''scan.pdf'')
      \<and> ucd_lower ucd_excerpt (path_suffix world_sample (cps ''scan.pdf'')) = cps ''.pdf''
      \<and> pdf_try (pdf_reader world_sample (cps ''scan.pdf''))
          = Inl (Raised (Library (cps ''PdfReadError'')) (cps ''EOF marker not found''))"
    by (simp add: world_eval pdf_try_def)
  have h6: "path_exists world_sample (cps ''memo.docx'')
      \<and> ucd_lower ucd_excerpt (path_suffix world_sample (cps ''memo.docx''))
          \<in> {cps ''.docx'', cps ''.doc''}
      \<and> docx_try (docx_document world_sample (cps ''memo.docx''))
          = Inl (Raised (Library (cps ''PackageNotFoundError'')) (cps ''Package not found''))"
    by (simp add: world_eval docx_try_def)
  note c1 = pipeline_failures [THEN conjunct1, rule_format]
  note c2 = pipeline_failures [THEN conjunct2, THEN conjunct1, rule_format]
  note c3 = pipeline_failures [THEN conjunct2, THEN conjunct2, THEN conjunct2, THEN conjunct2, THEN conjunct1, rule_format]
  note c4 = pipeline_failures [THEN conjunct2, THEN conjunct2, THEN conjunct2, THEN conjunct2, THEN conjunct2, THEN conjunct1,
      rule_format]
  note c5 = pipeline_failures [THEN conjunct2, THEN conjunct2, THEN conjunct2, THEN conjunct2, THEN conjunct2, THEN conjunct2,
      THEN conjunct1, rule_format]
  note c6 = pipeline_failures [THEN conjunct2, THEN conjunct2, THEN conjunct2, THEN conjunct2, THEN conjunct2, THEN conjunct2,
      THEN conjunct2, rule_format]
  have 1: "analyze timeout_analyzer json_loads_sample ascii_lower 0 1 (cps ''Lease'')
      = Inl (Raised RuntimeError (cps ''AI analysis failed: '' @ cps ''Request timed out.''))"
    using c1 [where self = timeout_analyzer and ct = "cps ''Lease''", OF h1] by simp
  have 2: "analyze ?a json_loads_sample ascii_lower 0 1 (cps ''Lease'') = Inl parse_failed"
    using c2 [where self = ?a and ct = "cps ''Lease''" and loads = json_loads_sample, OF h2]
    by simp
  have 3: "extract_text world_sample ucd_excerpt (init_processor True) (cps ''gone.pdf'') True
      = Inl (Raised FileNotFoundError (cps ''File not found: '' @ cps ''gone.pdf''))"
    using c3 [where w = world_sample and f = "cps ''gone.pdf''", OF h3] by simp
  have 4: "extract_text world_sample ucd_excerpt (init_processor True) (cps ''notes.txt'') True
      = Inl (Raised ValueError (cps ''Unsupported file format: '' @ cps ''.txt''))"
    using c4 [where w = world_sample and u = ucd_excerpt and f = "cps ''notes.txt''"
        and flag = True, OF h4]
    unfolding s4 by simp
  have 5: "extract_text world_sample ucd_excerpt (init_processor True) (cps ''scan.pdf'') True
      = Inl (Raised Exception (cps ''PDF extraction failed: '' @ cps ''EOF marker not found''))"
    using c5 [where w = world_sample and u = ucd_excerpt and f = "cps ''scan.pdf''", OF h5]
    by simp
  have 6: "extract_text world_sample ucd_excerpt (init_processor True) (cps ''memo.docx'') True
      = Inl (Raised Exception (cps ''DOCX extraction failed: '' @ cps ''Package not found''))"
    using c6 [where w = world_sample and u = ucd_excerpt and f = "cps ''memo.docx''", OF h6]
    by simp
  show ?thesis by (intro conjI 1 2 3 4 5 6)
qed

text \<open>
  Claim C4 as stated fails. A remote call that times out and an answer that cannot be
  parsed surface as the same class \<open>RuntimeError\<close>, told apart by the message only, and a
  document that its library cannot open surfaces as \<open>Exception\<close>, the most general
  class: the five kinds of the claim are not distinct classes here, and one of them is
  the generic failure.
\<close>

theorem pipeline_failures_not_distinct:
  "analyze timeout_analyzer json_loads_sample ascii_lower 0 1 (cps ''Lease'')
     = Inl (Raised RuntimeError (cps ''AI analysis failed: Request timed out.''))
   \<and> analyze (answering_analyzer (cps ''I cannot help with that'')) json_loads_sample
        ascii_lower 0 1 (cps ''Lease'')
     = Inl (Raised RuntimeError (cps ''Failed to parse AI response as JSON.''))
   \<and> extract_text world_sample ucd_excerpt (init_processor True) (cps ''memo.docx'') True
     = Inl (Raised Exception (cps ''DOCX extraction failed: Package not found''))"
proof (intro conjI)
  show "analyze timeout_analyzer json_loads_sample ascii_lower 0 1 (cps ''Lease'')
     = Inl (Raised RuntimeError (cps ''AI analysis failed: Request timed out.''))"
    by (simp add: analyze_def call_gpt_def timeout_analyzer_def cps_def)
  show "analyze (answering_analyzer (cps ''I cannot help with that'')) json_loads_sample
        ascii_lower 0 1 (cps ''Lease'')
     = Inl (Raised RuntimeError (cps ''Failed to parse AI response as JSON.''))"
    by (simp add: analyze_def call_gpt_def answering_analyzer_def parse_response_def
        parse_json_text_def parse_eval json_loads_sample_short find_char_def rfind_char_def
        parse_failed_def)
  show "extract_text world_sample ucd_excerpt (init_processor True) (cps ''memo.docx'') True
     = Inl (Raised Exception (cps ''DOCX extraction failed: Package not found''))"
    by (simp add: extract_text_def extract_from_docx_def docx_try_def world_eval Let_def)
qed

section \<open>Properties of \<open>to_dict\<close>\<close>

subsection \<open>The objects that exist before the call are not written\<close>

lemma extends_refl: "extends h h"
  by (simp add: extends_def)

lemma extends_trans: "extends h h1 \<Longrightarrow> extends h1 h2 \<Longrightarrow> extends h h2"
  by (auto simp: extends_def)

lemma extends_alloc: "alloc h ob = (h', q) \<Longrightarrow> extends h h' \<and> q = next_addr h \<and> next_addr h' = Suc (next_addr h)"
  by (auto simp: alloc_def extends_def)

lemma fresh_part_alloc:
  assumes "alloc h ob = (h', q)" and "fresh_part m h" and "m \<le> next_addr h"
    and "\<forall>v\<in>set (obj_values ob). val_fresh m v"
  shows "fresh_part m h'"
  using assms unfolding fresh_part_def alloc_def by (auto split: if_splits)

lemma set_zip_snd: "set (map snd (zip ks vs)) \<subseteq> set vs"
  by (auto dest: set_zip_rightD)

lemma asdict_inner_frame:
  "asdict_inner n h v = Some (h', v') \<Longrightarrow> m \<le> next_addr h \<Longrightarrow> fresh_part m h \<Longrightarrow>
     extends h h' \<and> fresh_part m h' \<and> val_fresh m v'"
  and copy_values_frame:
  "copy_values n h vs = Some (h', vs') \<Longrightarrow> m \<le> next_addr h \<Longrightarrow> fresh_part m h \<Longrightarrow>
     extends h h' \<and> fresh_part m h' \<and> (\<forall>v\<in>set vs'. val_fresh m v)"
proof (induction n h v and n h vs arbitrary: h' v' and h' vs' rule: asdict_inner_copy_values.induct)
  case (1 h v)
  then show ?case by simp
next
  case (2 n h p)
  from "2.prems"(1) obtain ob where ob: "cells h p = Some ob"
    by (auto split: option.splits)
  have step: "extends h h' \<and> fresh_part m h' \<and> val_fresh m v'"
    if cv: "copy_values n h vs0 = Some (h1, vs)"
      and ih: "extends h h1 \<and> fresh_part m h1 \<and> (\<forall>v\<in>set vs. val_fresh m v)"
      and al: "alloc h1 nob = (h', q)" and v': "v' = HRef q"
      and sub: "set (obj_values nob) \<subseteq> set vs"
    for vs0 h1 vs nob q
  proof -
    have m1: "m \<le> next_addr h1" using ih "2.prems"(2) by (auto simp: extends_def)
    have e: "extends h1 h' \<and> q = next_addr h1 \<and> next_addr h' = Suc (next_addr h1)"
      using al by (rule extends_alloc)
    have f: "fresh_part m h'"
      using al ih m1 sub by (intro fresh_part_alloc [OF al]) auto
    show ?thesis using ih e f m1 v' extends_trans [of h h1 h'] by (auto simp: val_fresh_def)
  qed
  show ?case
  proof (cases ob)
    case (HInstance fs)
    from "2.prems"(1) ob HInstance obtain h1 vs q where
      cv: "copy_values n h (map snd fs) = Some (h1, vs)"
      and al: "alloc h1 (HDict (zip (map fst fs) vs)) = (h', q)" and v': "v' = HRef q"
      by (auto split: option.splits prod.splits)
    have ih: "extends h h1 \<and> fresh_part m h1 \<and> (\<forall>v\<in>set vs. val_fresh m v)"
      using "2.IH"(1) [OF ob HInstance cv "2.prems"(2,3)] .
    show ?thesis using step [OF cv ih al v'] set_zip_snd [of "map fst fs" vs] by simp
  next
    case (HList vs0)
    from "2.prems"(1) ob HList obtain h1 vs q where
      cv: "copy_values n h vs0 = Some (h1, vs)"
      and al: "alloc h1 (HList vs) = (h', q)" and v': "v' = HRef q"
      by (auto split: option.splits prod.splits)
    have ih: "extends h h1 \<and> fresh_part m h1 \<and> (\<forall>v\<in>set vs. val_fresh m v)"
      using "2.IH"(2) [OF ob HList cv "2.prems"(2,3)] .
    show ?thesis using step [OF cv ih al v'] by simp
  next
    case (HDict kvs)
    from "2.prems"(1) ob HDict obtain h1 vs q where
      cv: "copy_values n h (map snd kvs) = Some (h1, vs)"
      and al: "alloc h1 (HDict (zip (map fst kvs) vs)) = (h', q)" and v': "v' = HRef q"
      by (auto split: option.splits prod.splits)
    have ih: "extends h h1 \<and> fresh_part m h1 \<and> (\<forall>v\<in>set vs. val_fresh m v)"
      using "2.IH"(3) [OF ob HDict cv "2.prems"(2,3)] .
    show ?thesis using step [OF cv ih al v'] set_zip_snd [of "map fst kvs" vs] by simp
  qed
next
  case (5 n h v vs)
  from "5.prems"(1) obtain h1 w ws where
    a: "asdict_inner n h v = Some (h1, w)" and c: "copy_values n h1 vs = Some (h', ws)"
    and r: "vs' = w # ws"
    by (auto split: option.splits prod.splits)
  have 1: "extends h h1 \<and> fresh_part m h1 \<and> val_fresh m w"
    using "5.IH"(1) [OF a "5.prems"(2,3)] .
  then have m1: "m \<le> next_addr h1" using "5.prems"(2) by (auto simp: extends_def)
  have 2: "extends h1 h' \<and> fresh_part m h' \<and> (\<forall>v\<in>set ws. val_fresh m v)"
    using "5.IH"(2) [OF a refl c m1] 1 by simp
  show ?case using 1 2 r extends_trans [of h h1 h'] by auto
qed (auto simp: extends_refl val_fresh_def)


lemma flag_step_frame:
  "flag_step h v = Some h' \<Longrightarrow> val_fresh m v \<Longrightarrow>
     (\<forall>q<m. cells h' q = cells h q) \<and> next_addr h' = next_addr h"
  by (auto simp: flag_step_def store_at_def val_fresh_def
      split: hval.splits option.splits hobj.splits)

lemma flags_loop_frame:
  "flags_loop h vs = Some h' \<Longrightarrow> \<forall>v\<in>set vs. val_fresh m v \<Longrightarrow>
     (\<forall>q<m. cells h' q = cells h q) \<and> next_addr h' = next_addr h"
proof (induction vs arbitrary: h)
  case Nil
  then show ?case by simp
next
  case (Cons v vs)
  from Cons.prems(1) obtain h1 where s: "flag_step h v = Some h1" and l: "flags_loop h1 vs = Some h'"
    by (auto split: option.splits)
  have 1: "(\<forall>q<m. cells h1 q = cells h q) \<and> next_addr h1 = next_addr h"
    using flag_step_frame [OF s, of m] Cons.prems(2) by simp
  have 2: "(\<forall>q<m. cells h' q = cells h1 q) \<and> next_addr h' = next_addr h1"
    using Cons.IH [OF l] Cons.prems(2) by simp
  show ?case using 1 2 by simp
qed

lemma fresh_part_wf: "wf_heap h \<Longrightarrow> fresh_part (next_addr h) h"
  by (auto simp: wf_heap_def fresh_part_def)

lemma fresh_part_values:
  "fresh_part m h \<Longrightarrow> m \<le> i \<Longrightarrow> cells h i = Some ob \<Longrightarrow> v \<in> set (obj_values ob) \<Longrightarrow> val_fresh m v"
  by (auto simp: fresh_part_def)

lemma map_of_in_values: "map_of d k = Some v \<Longrightarrow> v \<in> set (map snd d)"
  by (induction d) (auto split: if_splits)

lemma dict_set_values: "set (map snd (dict_set d k v)) \<subseteq> insert v (set (map snd d))"
  by (induction d) auto

lemma to_dict_frame:
  assumes "wf_heap h" and "to_dict limit h p = Some (h', r)"
  shows "(\<forall>q<next_addr h. cells h' q = cells h q) \<and> next_addr h \<le> r
    \<and> next_addr h \<le> next_addr h'"
proof -
  let ?m = "next_addr h"
  from assms(2) obtain h1 d q kvs h2 q' flags where
    as: "asdict_inner limit h (HRef p) = Some (h1, HRef r)"
    and d: "cells h1 r = Some (HDict d)"
    and q: "map_of d (cps ''risk_score'') = Some (HRef q)"
    and kvs: "cells h1 q = Some (HDict kvs)"
    and al: "alloc h1 (HDict (map (\<lambda>kv. (fst kv, value_or_self (snd kv))) kvs)) = (h2, q')"
    and fl: "flags_of (store_at h2 r (HDict (dict_set d (cps ''risk_score'') (HRef q'))))
               (dict_set d (cps ''risk_score'') (HRef q')) = Some flags"
    and lp: "flags_loop (store_at h2 r (HDict (dict_set d (cps ''risk_score'') (HRef q')))) flags = Some h'"
    by (auto simp: to_dict_def asdict_def Let_def
        split: option.splits hobj.splits hval.splits prod.splits)
  let ?d' = "dict_set d (cps ''risk_score'') (HRef q')"
  let ?h3 = "store_at h2 r (HDict ?d')"
  have f0: "fresh_part ?m h" using assms(1) by (rule fresh_part_wf)
  have a: "extends h h1 \<and> fresh_part ?m h1 \<and> val_fresh ?m (HRef r)"
    using asdict_inner_frame [OF as _ f0] by simp
  then have r: "?m \<le> r" by (simp add: val_fresh_def)
  have e2: "extends h1 h2 \<and> q' = next_addr h1 \<and> next_addr h2 = Suc (next_addr h1)"
    using al by (rule extends_alloc)
  have q': "?m \<le> q'" using a e2 by (auto simp: extends_def)
  have dv: "\<forall>v\<in>set (map snd d). val_fresh ?m v"
    using fresh_part_values [of ?m h1 r "HDict d"] a r d by auto
  have d'v: "\<forall>v\<in>set (map snd ?d'). val_fresh ?m v"
    using dict_set_values [of d "cps ''risk_score''" "HRef q'"] dv q'
    by (auto simp: val_fresh_def)
  have below3: "\<forall>x<?m. cells ?h3 x = cells h x"
    using a e2 r by (auto simp: store_at_def extends_def)
  have flv: "\<forall>v\<in>set flags. val_fresh ?m v"
  proof (cases "map_of ?d' (cps ''red_flags'')")
    case None
    then show ?thesis using fl by (simp add: flags_of_def)
  next
    case (Some w)
    then have w: "val_fresh ?m w" using d'v map_of_in_values by fastforce
    show ?thesis
    proof (cases w)
      case (HRef l)
      then have l: "?m \<le> l" using w by (simp add: val_fresh_def)
      show ?thesis
      proof (cases "cells ?h3 l")
        case None
        then show ?thesis using fl Some HRef by (simp add: flags_of_def)
      next
        case (Some ob)
        show ?thesis
        proof (cases ob)
          case (HList vs)
          then have "l \<noteq> r" using Some by (auto simp: store_at_def)
          moreover have "l \<noteq> q'" using Some HList al by (auto simp: store_at_def alloc_def split: if_splits)
          ultimately have "cells h1 l = Some (HList vs)"
            using Some HList al by (auto simp: store_at_def alloc_def split: if_splits)
          then have "\<forall>v\<in>set vs. val_fresh ?m v"
            using fresh_part_values [of ?m h1 l "HList vs"] a l by auto
          moreover have "flags = vs" using fl \<open>map_of ?d' (cps ''red_flags'') = Some w\<close> HRef Some HList
            by (simp add: flags_of_def)
          ultimately show ?thesis by simp
        next
          case (HDict ks)
          then have "flags = map (\<lambda>kv. HStr (fst kv)) ks"
            using fl \<open>map_of ?d' (cps ''red_flags'') = Some w\<close> HRef Some by (simp add: flags_of_def)
          then show ?thesis by (auto simp: val_fresh_def)
        next
          case (HInstance fs)
          then show ?thesis
            using fl \<open>map_of ?d' (cps ''red_flags'') = Some w\<close> HRef Some by (simp add: flags_of_def)
        qed
      qed
    qed (use fl Some in \<open>auto simp: flags_of_def val_fresh_def\<close>)
  qed
  have "(\<forall>x<?m. cells h' x = cells ?h3 x) \<and> next_addr h' = next_addr ?h3"
    using flags_loop_frame [OF lp flv] by simp
  moreover have "?m \<le> next_addr ?h3"
    using a e2 by (simp add: store_at_def extends_def)
  ultimately show ?thesis using below3 r by simp
qed


subsection \<open>The copy of an analysis\<close>

lemma enc_leafval [simp]: "is_leafval (enc v)"
  by (cases v) (simp_all add: is_leafval_def)

lemma asdict_inner_leaf: "is_leafval v \<Longrightarrow> asdict_inner (Suc n) h v = Some (h, v)"
  by (cases v) (auto simp: is_leafval_def)

lemma copy_values_leaves:
  "\<forall>v\<in>set vs. is_leafval v \<Longrightarrow> copy_values (Suc n) h vs = Some (h, vs)"
  by (induction vs) (auto simp: asdict_inner_leaf)

lemma zip_fst_snd: "zip (map fst xs) (map snd xs) = xs"
  by (induction xs) auto

lemma asdict_inner_instance_leaves:
  assumes "cells h q = Some (HInstance fs)" and "\<forall>v\<in>set (map snd fs). is_leafval v"
  shows "asdict_inner (Suc (Suc n)) h (HRef q) = Some (fst (alloc h (HDict fs)), HRef (next_addr h))"
  using assms copy_values_leaves [of "map snd fs" n h]
  by (simp add: zip_fst_snd alloc_def)

lemma asdict_inner_dict_leaves:
  assumes "cells h q = Some (HDict fs)" and "\<forall>v\<in>set (map snd fs). is_leafval v"
  shows "asdict_inner (Suc (Suc n)) h (HRef q) = Some (fst (alloc h (HDict fs)), HRef (next_addr h))"
  using assms copy_values_leaves [of "map snd fs" n h]
  by (simp add: zip_fst_snd alloc_def)

lemma asdict_inner_list_leaves:
  assumes "cells h q = Some (HList vs)" and "\<forall>v\<in>set vs. is_leafval v"
  shows "asdict_inner (Suc (Suc n)) h (HRef q) = Some (fst (alloc h (HList vs)), HRef (next_addr h))"
  using assms copy_values_leaves [of vs n h]
  by (simp add: alloc_def)

lemma cells_alloc:
  "cells (fst (alloc h ob)) x = (if x = next_addr h then Some ob else cells h x)"
  "next_addr (fst (alloc h ob)) = Suc (next_addr h)"
  by (simp_all add: alloc_def)

lemma is_leafval_simps [simp]:
  "is_leafval HNone" "is_leafval (HBool b)" "is_leafval (HInt i)" "is_leafval (HFloat x)"
  "is_leafval (HStr s)" "is_leafval (HEnum e)" "\<not> is_leafval (HRef q)"
  by (simp_all add: is_leafval_def)

lemma flag_fields_vals: "\<forall>v\<in>set (map snd (flag_fields f)). is_leafval v"
  by (simp add: flag_fields_def)

lemma score_fields_vals: "\<forall>v\<in>set (map snd (score_fields s)). is_leafval v"
  by (simp add: score_fields_def)

lemma copy_flags:
  assumes "list_all2 (\<lambda>q f. q < next_addr h \<and> cells h q = Some (HInstance (flag_fields f))) qs fs"
  shows "\<exists>h'. copy_values (Suc (Suc n)) h (map HRef qs)
            = Some (h', map HRef [next_addr h..<next_addr h + length qs])
          \<and> next_addr h' = next_addr h + length qs
          \<and> (\<forall>i<length fs. cells h' (next_addr h + i) = Some (HDict (flag_fields (fs ! i))))
          \<and> (\<forall>x<next_addr h. cells h' x = cells h x)"
  using assms
proof (induction qs arbitrary: fs h)
  case Nil
  then show ?case by simp
next
  case (Cons q qs fs0)
  from Cons.prems obtain f fs where fs0: "fs0 = f # fs"
    and q: "q < next_addr h" "cells h q = Some (HInstance (flag_fields f))"
    and rest: "list_all2 (\<lambda>q f. q < next_addr h \<and> cells h q = Some (HInstance (flag_fields f))) qs fs"
    by (auto simp: list_all2_Cons1)
  let ?h1 = "fst (alloc h (HDict (flag_fields f)))"
  have a: "asdict_inner (Suc (Suc n)) h (HRef q) = Some (?h1, HRef (next_addr h))"
    by (rule asdict_inner_instance_leaves [OF q(2) flag_fields_vals])
  have "list_all2 (\<lambda>q f. q < next_addr ?h1 \<and> cells ?h1 q = Some (HInstance (flag_fields f))) qs fs"
    using rest by (auto simp: cells_alloc elim!: list_all2_mono)
  from Cons.IH [OF this] obtain h' where
    c: "copy_values (Suc (Suc n)) ?h1 (map HRef qs)
          = Some (h', map HRef [next_addr ?h1..<next_addr ?h1 + length qs])"
    and n': "next_addr h' = next_addr ?h1 + length qs"
    and cs: "\<forall>i<length fs. cells h' (next_addr ?h1 + i) = Some (HDict (flag_fields (fs ! i)))"
    and lo: "\<forall>x<next_addr ?h1. cells h' x = cells ?h1 x"
    by blast
  have "[next_addr h..<next_addr h + Suc (length qs)]
      = next_addr h # [Suc (next_addr h)..<next_addr h + Suc (length qs)]"
    by (rule upt_conv_Cons) simp
  then have u: "[next_addr h..<next_addr h + length (q # qs)]
      = next_addr h # [Suc (next_addr h)..<Suc (next_addr h) + length qs]"
    by simp
  have 1: "copy_values (Suc (Suc n)) h (map HRef (q # qs))
      = Some (h', map HRef [next_addr h..<next_addr h + length (q # qs)])"
    unfolding u using a c by (simp add: cells_alloc)
  have 2: "next_addr h' = next_addr h + length (q # qs)" using n' by (simp add: cells_alloc)
  have 3: "cells h' (next_addr h + i) = Some (HDict (flag_fields (fs0 ! i)))"
    if "i < length fs0" for i
  proof (cases i)
    case 0
    then show ?thesis using lo fs0 by (simp add: cells_alloc)
  next
    case (Suc j)
    then show ?thesis using cs that fs0 by (simp add: cells_alloc)
  qed
  have 4: "\<forall>x<next_addr h. cells h' x = cells h x" using lo by (simp add: cells_alloc)
  show ?case using 1 2 3 4 by blast
qed


lemma flag_step_flag:
  "cells h q = Some (HDict (flag_fields f)) \<Longrightarrow>
   flag_step h (HRef q) = Some (store_at h q (HDict (flag_json_fields f)))"
  by (simp add: flag_step_def flag_fields_def flag_json_fields_def cps_def)

lemma upt_add_Suc: "[a..<a + Suc k] = a # [Suc a..<Suc a + k]"
proof -
  have "[a..<a + Suc k] = a # [Suc a..<a + Suc k]" by (rule upt_conv_Cons) simp
  then show ?thesis by simp
qed

lemma flags_loop_sets:
  assumes "\<forall>i<length fs. cells h (a + i) = Some (HDict (flag_fields (fs ! i)))"
  shows "\<exists>h'. flags_loop h (map HRef [a..<a + length fs]) = Some h'
          \<and> next_addr h' = next_addr h
          \<and> (\<forall>i<length fs. cells h' (a + i) = Some (HDict (flag_json_fields (fs ! i))))
          \<and> (\<forall>x. x < a \<or> a + length fs \<le> x \<longrightarrow> cells h' x = cells h x)"
  using assms
proof (induction fs arbitrary: a h)
  case Nil
  then show ?case by simp
next
  case (Cons f fs)
  let ?h1 = "store_at h a (HDict (flag_json_fields f))"
  have "cells h a = Some (HDict (flag_fields f))" using Cons.prems by fastforce
  then have s: "flag_step h (HRef a) = Some ?h1" by (rule flag_step_flag)
  have "\<forall>i<length fs. cells ?h1 (Suc a + i) = Some (HDict (flag_fields (fs ! i)))"
  proof (intro allI impI)
    fix i assume "i < length fs"
    then have "cells h (a + Suc i) = Some (HDict (flag_fields ((f # fs) ! Suc i)))"
      using Cons.prems by (metis Suc_less_eq length_Cons)
    then show "cells ?h1 (Suc a + i) = Some (HDict (flag_fields (fs ! i)))"
      by (simp add: store_at_def)
  qed
  from Cons.IH [OF this] obtain h' where
    l: "flags_loop ?h1 (map HRef [Suc a..<Suc a + length fs]) = Some h'"
    and n: "next_addr h' = next_addr ?h1"
    and c: "\<forall>i<length fs. cells h' (Suc a + i) = Some (HDict (flag_json_fields (fs ! i)))"
    and o: "\<forall>x. x < Suc a \<or> Suc a + length fs \<le> x \<longrightarrow> cells h' x = cells ?h1 x"
    by blast
  have u: "[a..<a + length (f # fs)] = a # [Suc a..<Suc a + length fs]"
    using upt_add_Suc [of a "length fs"] by simp
  have 1: "flags_loop h (map HRef [a..<a + length (f # fs)]) = Some h'"
    by (simp only: u list.map flags_loop.simps s option.simps l)
  have 2: "next_addr h' = next_addr h" using n by (simp add: store_at_def)
  have 3: "cells h' (a + i) = Some (HDict (flag_json_fields ((f # fs) ! i)))"
    if "i < length (f # fs)" for i
  proof (cases i)
    case 0
    then show ?thesis using o by (simp add: store_at_def)
  next
    case (Suc j)
    then show ?thesis using c that by simp
  qed
  have 4: "\<forall>x. x < a \<or> a + length (f # fs) \<le> x \<longrightarrow> cells h' x = cells h x"
    using o by (auto simp: store_at_def)
  show ?case using 1 2 3 4 by blast
qed

text \<open>Reading a structure of the store as a value.\<close>

lemma read_json_enc: "is_leaf v \<Longrightarrow> read_json n h (enc v) = Some v"
  by (cases v) auto

lemma read_values_enc: "list_all is_leaf vs \<Longrightarrow> read_values n h (map enc vs) = Some vs"
  by (induction vs) (auto simp: read_json_enc)

lemma read_values_items:
  "list_all (\<lambda>kv. is_leaf (snd kv)) kts \<Longrightarrow>
   read_values n h (map snd (map (\<lambda>kv. (fst kv, enc (snd kv))) kts)) = Some (map snd kts)"
  by (induction kts) (auto simp: read_json_enc)

lemma read_json_leaf_dict:
  assumes "cells h q = Some (HDict (map (\<lambda>kv. (fst kv, enc (snd kv))) kts))"
    and "list_all (\<lambda>kv. is_leaf (snd kv)) kts"
  shows "read_json (Suc n) h (HRef q) = Some (PDict kts)"
  using assms read_values_items [OF assms(2), of n h]
  by (simp add: comp_def zip_fst_snd)

lemma read_json_leaf_list:
  assumes "cells h q = Some (HList (map enc vs))" and "list_all is_leaf vs"
  shows "read_json (Suc n) h (HRef q) = Some (PList vs)"
  using assms by (simp add: read_values_enc)

lemma read_json_flag:
  assumes "cells h q = Some (HDict (flag_json_fields f))" and "typed_flag f"
  shows "read_json (Suc n) h (HRef q) = Some (flag_value f)"
  using assms by (simp add: flag_json_fields_def flag_value_def typed_flag_def read_json_enc)

lemma read_values_flags:
  assumes "\<forall>i<length fs. cells h (a + i) = Some (HDict (flag_json_fields (fs ! i)))"
    and "list_all typed_flag fs"
  shows "read_values (Suc n) h (map HRef [a..<a + length fs]) = Some (map flag_value fs)"
  using assms
proof (induction fs arbitrary: a)
  case Nil
  then show ?case by simp
next
  case (Cons f fs)
  have 0: "cells h a = Some (HDict (flag_json_fields f))" using Cons.prems(1) by fastforce
  have hyp: "\<forall>i<length fs. cells h (Suc a + i) = Some (HDict (flag_json_fields (fs ! i)))"
  proof (intro allI impI)
    fix i assume "i < length fs"
    then have "cells h (a + Suc i) = Some (HDict (flag_json_fields ((f # fs) ! Suc i)))"
      using Cons.prems(1) by (metis Suc_less_eq length_Cons)
    then show "cells h (Suc a + i) = Some (HDict (flag_json_fields (fs ! i)))" by simp
  qed
  have tf: "list_all typed_flag fs" using Cons.prems(2) by simp
  have r: "read_values (Suc n) h (map HRef [Suc a..<Suc a + length fs]) = Some (map flag_value fs)"
    by (rule Cons.IH [OF hyp tf])
  have j: "read_json (Suc n) h (HRef a) = Some (flag_value f)"
    using 0 Cons.prems(2) by (intro read_json_flag) auto
  have u: "[a..<a + length (f # fs)] = a # [Suc a..<Suc a + length fs]"
    using upt_add_Suc [of a "length fs"] by simp
  show ?case
    by (simp only: u list.map read_values.simps j r option.simps)
qed

lemma read_json_score:
  assumes "cells h q = Some (HDict (score_json_fields s))"
  shows "read_json (Suc n) h (HRef q) = Some (score_value s)"
  using assms by (simp add: score_json_fields_def score_fields_def score_value_def)


subsection \<open>The result for an analysis\<close>

lemma items_leafvals: "\<forall>v\<in>set (map snd (map (\<lambda>kv. (fst kv, enc (snd kv))) kts)). is_leafval v"
  by simp

lemma encs_leafvals: "\<forall>v\<in>set (map enc recs). is_leafval v"
  by simp

lemma asdict_analysis:
  assumes A: "analysis_at h p kt fl rs rc qs kts recs a"
  shows "\<exists>h1. asdict (Suc (Suc (Suc (Suc n)))) h p
             = Some (h1, HRef (next_addr h + length qs + 4))
     \<and> next_addr h1 = next_addr h + length qs + 5
     \<and> cells h1 (next_addr h) = Some (HDict (map (\<lambda>kv. (fst kv, enc (snd kv))) kts))
     \<and> (\<forall>i<length qs. cells h1 (Suc (next_addr h) + i)
            = Some (HDict (flag_fields (red_flags a ! i))))
     \<and> cells h1 (Suc (next_addr h) + length qs)
          = Some (HList (map HRef [Suc (next_addr h)..<Suc (next_addr h) + length qs]))
     \<and> cells h1 (next_addr h + length qs + 2) = Some (HDict (score_fields (risk_score a)))
     \<and> cells h1 (next_addr h + length qs + 3) = Some (HList (map enc recs))
     \<and> cells h1 (next_addr h + length qs + 4)
          = Some (HDict (result_fields a (next_addr h) (length qs) (next_addr h + length qs + 2)))
     \<and> (\<forall>x<next_addr h. cells h1 x = cells h x)"
proof -
  define b where "b = next_addr h"
  define k where "k = length qs"
  let ?ktd = "map (\<lambda>kv. (fst kv, enc (snd kv))) kts"
  let ?fs = "red_flags a"
  have cp: "cells h p = Some (HInstance
          [(cps ''summary'', enc (summary a)),
           (cps ''key_terms'', HRef kt),
           (cps ''red_flags'', HRef fl),
           (cps ''risk_score'', HRef rs),
           (cps ''recommendations'', HRef rc),
           (cps ''processing_time'', HFloat (processing_time a))])"
    and ckt: "cells h kt = Some (HDict ?ktd)"
    and cfl: "cells h fl = Some (HList (map HRef qs))"
    and len: "length qs = length ?fs"
    and cqs: "list_all2 (\<lambda>q f. q < next_addr h \<and> cells h q = Some (HInstance (flag_fields f))) qs ?fs"
    and crs: "cells h rs = Some (HInstance (score_fields (risk_score a)))"
    and crc: "cells h rc = Some (HList (map enc recs))"
    and lt: "p < b" "kt < b" "fl < b" "rs < b" "rc < b"
    using A by (simp_all add: analysis_at_def b_def)
  \<comment> \<open>key terms\<close>
  define hA where "hA = fst (alloc h (HDict ?ktd))"
  have nA: "next_addr hA = Suc b" and cA: "\<And>x. cells hA x = (if x = b then Some (HDict ?ktd) else cells h x)"
    by (simp_all add: hA_def cells_alloc b_def)
  have s1: "asdict_inner (Suc (Suc (Suc n))) h (enc (summary a)) = Some (h, enc (summary a))"
    by (rule asdict_inner_leaf) simp
  have s2: "asdict_inner (Suc (Suc (Suc n))) h (HRef kt) = Some (hA, HRef b)"
    unfolding hA_def b_def by (rule asdict_inner_dict_leaves [OF ckt items_leafvals])
  \<comment> \<open>red flags\<close>
  have "list_all2 (\<lambda>q f. q < next_addr hA \<and> cells hA q = Some (HInstance (flag_fields f))) qs ?fs"
    using cqs by (auto simp: nA cA b_def elim!: list_all2_mono)
  from copy_flags [OF this, of n] obtain hB where
    cv: "copy_values (Suc (Suc n)) hA (map HRef qs) = Some (hB, map HRef [Suc b..<Suc b + k])"
    and nB: "next_addr hB = Suc b + k"
    and fB: "\<forall>i<k. cells hB (Suc b + i) = Some (HDict (flag_fields (?fs ! i)))"
    and lB: "\<forall>x<Suc b. cells hB x = cells hA x"
    unfolding nA k_def len by blast
  define hC where "hC = fst (alloc hB (HList (map HRef [Suc b..<Suc b + k])))"
  have nC: "next_addr hC = Suc (Suc b + k)"
    and cC: "\<And>x. cells hC x = (if x = Suc b + k then Some (HList (map HRef [Suc b..<Suc b + k])) else cells hB x)"
    by (simp_all add: hC_def cells_alloc nB)
  have "cells hA fl = Some (HList (map HRef qs))" using cfl lt by (simp add: cA)
  then have s3: "asdict_inner (Suc (Suc (Suc n))) hA (HRef fl) = Some (hC, HRef (Suc b + k))"
    using cv by (simp add: hC_def alloc_def nB)
  \<comment> \<open>risk score\<close>
  define hD where "hD = fst (alloc hC (HDict (score_fields (risk_score a))))"
  have nD: "next_addr hD = Suc (Suc (Suc b + k))"
    and cD: "\<And>x. cells hD x = (if x = Suc (Suc b + k) then Some (HDict (score_fields (risk_score a))) else cells hC x)"
    by (simp_all add: hD_def cells_alloc nC)
  have lowC: "cells hC x = cells h x" if "x < b" for x
    using that lB by (simp add: cC cA)
  have "cells hC rs = Some (HInstance (score_fields (risk_score a)))" using crs lt lowC by simp
  then have s4: "asdict_inner (Suc (Suc (Suc n))) hC (HRef rs) = Some (hD, HRef (Suc (Suc b + k)))"
    unfolding hD_def using asdict_inner_instance_leaves [OF _ score_fields_vals, of hC rs "risk_score a" "Suc n"]
    by (simp add: nC)
  \<comment> \<open>recommendations\<close>
  define hE where "hE = fst (alloc hD (HList (map enc recs)))"
  have nE: "next_addr hE = Suc (Suc (Suc (Suc b + k)))"
    and cE: "\<And>x. cells hE x = (if x = Suc (Suc (Suc b + k)) then Some (HList (map enc recs)) else cells hD x)"
    by (simp_all add: hE_def cells_alloc nD)
  have "cells hD rc = Some (HList (map enc recs))" using crc lt lowC by (simp add: cD)
  then have s5: "asdict_inner (Suc (Suc (Suc n))) hD (HRef rc) = Some (hE, HRef (Suc (Suc (Suc b + k))))"
    unfolding hE_def using asdict_inner_list_leaves [OF _ encs_leafvals, of hD rc recs "Suc n"]
    by (simp add: nD)
  have s6: "asdict_inner (Suc (Suc (Suc n))) hE (HFloat (processing_time a))
      = Some (hE, HFloat (processing_time a))"
    by (rule asdict_inner_leaf) simp
  \<comment> \<open>the instance\<close>
  let ?top = "result_fields a b k (b + k + 2)"
  define hF where "hF = fst (alloc hE (HDict ?top))"
  have nF: "next_addr hF = b + k + 5"
    and cF: "\<And>x. cells hF x = (if x = b + k + 4 then Some (HDict ?top) else cells hE x)"
    by (simp_all add: hF_def cells_alloc nE)
  have cvs: "copy_values (Suc (Suc (Suc n))) h
       [enc (summary a), HRef kt, HRef fl, HRef rs, HRef rc, HFloat (processing_time a)]
     = Some (hE, [enc (summary a), HRef b, HRef (Suc b + k), HRef (Suc (Suc b + k)),
                  HRef (Suc (Suc (Suc b + k))), HFloat (processing_time a)])"
    by (simp only: copy_values.simps s1 s2 s3 s4 s5 s6 option.simps prod.simps)
  have as: "asdict (Suc (Suc (Suc (Suc n)))) h p = Some (hF, HRef (b + k + 4))"
    using cp by (simp add: cvs asdict_def hF_def alloc_def nE result_fields_def eval_nat_numeral
        del: copy_values.simps)
  have t1: "cells hF b = Some (HDict ?ktd)"
    using lB by (simp add: cF cE cD cC cA)
  have t2: "\<forall>i<k. cells hF (Suc b + i) = Some (HDict (flag_fields (?fs ! i)))"
    using fB by (simp add: cF cE cD cC)
  have t3: "cells hF (Suc b + k) = Some (HList (map HRef [Suc b..<Suc b + k]))"
    by (simp add: cF cE cD cC)
  have t4: "cells hF (b + k + 2) = Some (HDict (score_fields (risk_score a)))"
    by (simp add: cF cE cD)
  have t5: "cells hF (b + k + 3) = Some (HList (map enc recs))"
    by (simp add: cF cE)
  have t6: "cells hF (b + k + 4) = Some (HDict ?top)"
    by (simp add: cF)
  have t7: "\<forall>x<b. cells hF x = cells h x"
    using lowC by (simp add: cF cE cD)
  show ?thesis
    using as nF t1 t2 t3 t4 t5 t6 t7 unfolding b_def k_def by blast
qed


lemma to_dict_analysis:
  assumes A: "analysis_at h p kt fl rs rc qs kts recs a"
  shows "\<exists>h'. to_dict (Suc (Suc (Suc (Suc n)))) h p = Some (h', next_addr h + length qs + 4)
     \<and> read_json (Suc (Suc (Suc 0))) h' (HRef (next_addr h + length qs + 4))
          = Some (to_dict_value a)"
proof -
  define b where "b = next_addr h"
  define k where "k = length qs"
  let ?ktd = "map (\<lambda>kv. (fst kv, enc (snd kv))) kts"
  let ?fs = "red_flags a"
  have ty: "is_leaf (summary a)" "key_terms a = PDict kts" "list_all (\<lambda>kv. is_leaf (snd kv)) kts"
    "recommendations a = PList recs" "list_all is_leaf recs" "list_all typed_flag ?fs"
    and len: "length ?fs = k"
    using A by (simp_all add: analysis_at_def k_def)
  from asdict_analysis [OF A, of n] obtain h1 where
    as: "asdict (Suc (Suc (Suc (Suc n)))) h p = Some (h1, HRef (b + k + 4))"
    and n1: "next_addr h1 = b + k + 5"
    and t1: "cells h1 b = Some (HDict ?ktd)"
    and t2: "\<forall>i<k. cells h1 (Suc b + i) = Some (HDict (flag_fields (?fs ! i)))"
    and t3: "cells h1 (Suc b + k) = Some (HList (map HRef [Suc b..<Suc b + k]))"
    and t4: "cells h1 (b + k + 2) = Some (HDict (score_fields (risk_score a)))"
    and t5: "cells h1 (b + k + 3) = Some (HList (map enc recs))"
    and t6: "cells h1 (b + k + 4) = Some (HDict (result_fields a b k (b + k + 2)))"
    unfolding b_def k_def by blast
  \<comment> \<open>the assignment to \<open>risk_score\<close>\<close>
  have m1: "map_of (result_fields a b k (b + k + 2)) (cps ''risk_score'') = Some (HRef (b + k + 2))"
    by (simp add: result_fields_def cps_def)
  define hG where "hG = fst (alloc h1 (HDict (score_json_fields (risk_score a))))"
  have cG: "\<And>x. cells hG x = (if x = b + k + 5 then Some (HDict (score_json_fields (risk_score a))) else cells h1 x)"
    and nG: "next_addr hG = Suc (b + k + 5)"
    by (simp_all add: hG_def cells_alloc n1)
  have al: "alloc h1 (HDict (map (\<lambda>kv. (fst kv, value_or_self (snd kv))) (score_fields (risk_score a))))
      = (hG, b + k + 5)"
    by (simp add: hG_def alloc_def n1 score_json_fields_def)
  have d': "dict_set (result_fields a b k (b + k + 2)) (cps ''risk_score'') (HRef (b + k + 5))
      = result_fields a b k (b + k + 5)"
    by (simp add: result_fields_def cps_def)
  define hH where "hH = store_at hG (b + k + 4) (HDict (result_fields a b k (b + k + 5)))"
  have cH: "\<And>x. cells hH x = (if x = b + k + 4 then Some (HDict (result_fields a b k (b + k + 5)))
                else cells hG x)"
    by (simp add: hH_def store_at_def)
  \<comment> \<open>the loop\<close>
  have m2: "map_of (result_fields a b k (b + k + 5)) (cps ''red_flags'') = Some (HRef (Suc b + k))"
    by (simp add: result_fields_def cps_def)
  have fl: "flags_of hH (result_fields a b k (b + k + 5)) = Some (map HRef [Suc b..<Suc b + k])"
    using t3 by (simp add: flags_of_def m2 cH cG)
  have "\<forall>i<length ?fs. cells hH (Suc b + i) = Some (HDict (flag_fields (?fs ! i)))"
    using t2 len by (simp add: cH cG)
  from flags_loop_sets [OF this] obtain h' where
    lp: "flags_loop hH (map HRef [Suc b..<Suc b + k]) = Some h'"
    and u2: "\<forall>i<k. cells h' (Suc b + i) = Some (HDict (flag_json_fields (?fs ! i)))"
    and u0: "\<forall>x. x < Suc b \<or> Suc b + k \<le> x \<longrightarrow> cells h' x = cells hH x"
    unfolding len by blast
  have td: "to_dict (Suc (Suc (Suc (Suc n)))) h p = Some (h', b + k + 4)"
    by (simp only: to_dict_def as t6 m1 t4 al d' Let_def hH_def [symmetric] fl lp
        option.simps prod.simps hval.simps hobj.simps)
  \<comment> \<open>the result\<close>
  have u1: "cells h' b = Some (HDict ?ktd)"
    using u0 t1 by (simp add: cH cG)
  have u3: "cells h' (Suc b + k) = Some (HList (map HRef [Suc b..<Suc b + k]))"
    using u0 t3 by (simp add: cH cG)
  have u4: "cells h' (b + k + 5) = Some (HDict (score_json_fields (risk_score a)))"
    using u0 by (simp add: cH cG)
  have u5: "cells h' (b + k + 3) = Some (HList (map enc recs))"
    using u0 t5 by (simp add: cH cG)
  have u6: "cells h' (b + k + 4) = Some (HDict (result_fields a b k (b + k + 5)))"
    using u0 by (simp add: cH)
  have r1: "read_json (Suc (Suc 0)) h' (enc (summary a)) = Some (summary a)"
    using ty(1) by (rule read_json_enc)
  have r2: "read_json (Suc (Suc 0)) h' (HRef b) = Some (PDict kts)"
    using u1 ty(3) by (rule read_json_leaf_dict)
  have "read_values (Suc 0) h' (map HRef [Suc b..<Suc b + length ?fs]) = Some (map flag_value ?fs)"
    using u2 ty(6) len by (intro read_values_flags) auto
  then have r3: "read_json (Suc (Suc 0)) h' (HRef (Suc b + k)) = Some (PList (map flag_value ?fs))"
    using u3 len by simp
  have r4: "read_json (Suc (Suc 0)) h' (HRef (b + k + 5)) = Some (score_value (risk_score a))"
    using u4 by (rule read_json_score)
  have r5: "read_json (Suc (Suc 0)) h' (HRef (b + k + 3)) = Some (PList recs)"
    using u5 ty(5) by (rule read_json_leaf_list)
  have r6: "read_json (Suc (Suc 0)) h' (HFloat (processing_time a)) = Some (PFloat (processing_time a))"
    by simp
  have rv: "read_values (Suc (Suc 0)) h'
      [enc (summary a), HRef b, HRef (Suc b + k), HRef (b + k + 5), HRef (b + k + 3),
       HFloat (processing_time a)]
     = Some [summary a, PDict kts, PList (map flag_value ?fs), score_value (risk_score a),
             PList recs, PFloat (processing_time a)]"
    by (simp only: read_values.simps r1 r2 r3 r4 r5 r6 option.simps)
  have rd: "read_json (Suc (Suc (Suc 0))) h' (HRef (b + k + 4)) = Some (to_dict_value a)"
    by (simp only: read_json.simps u6 option.simps hobj.simps result_fields_def list.map
        snd_conv fst_conv rv zip_Cons_Cons zip_Nil to_dict_value_def ty(2,4))
  show ?thesis using td rd unfolding b_def k_def by blast
qed


lemma four_le: "4 \<le> limit \<Longrightarrow> \<exists>n. limit = Suc (Suc (Suc (Suc n)))"
proof -
  assume "4 \<le> limit"
  then have "limit = Suc (Suc (Suc (Suc (limit - 4))))" by simp
  then show ?thesis by blast
qed

lemma analysis_at_frame:
  assumes "analysis_at h p kt fl rs rc qs kts recs a"
    and "\<forall>q<next_addr h. cells h' q = cells h q" and "next_addr h \<le> next_addr h'"
  shows "analysis_at h' p kt fl rs rc qs kts recs a"
proof -
  have "list_all2 (\<lambda>q f. q < next_addr h \<and> cells h q = Some (HInstance (flag_fields f)))
      qs (red_flags a)"
    using assms(1) by (simp add: analysis_at_def)
  then have "list_all2 (\<lambda>q f. q < next_addr h' \<and> cells h' q = Some (HInstance (flag_fields f)))
      qs (red_flags a)"
    using assms(2,3) by (auto elim!: list_all2_mono)
  then show ?thesis using assms by (simp add: analysis_at_def)
qed


text \<open>
  Claim C10. In a well-formed store, whenever \<open>to_dict\<close> returns, every object that
  existed before the call is unchanged and the returned dictionary is a new object.
  For an analysis laid out in the store and a recursion limit of at least 4, \<open>to_dict\<close>
  returns; the analysis is afterwards laid out as before, so the five fields of its risk
  score and the severity of each red flag are still \<open>RiskLevel\<close> members; and the
  returned structure consists of dictionaries, lists and primitive values only and
  stands for the mapping in which every \<open>RiskLevel\<close> is its lowercase string.
\<close>

theorem to_dict_does_not_mutate:
  assumes "wf_heap h"
  shows "(to_dict limit h p = Some (h', r)
        \<longrightarrow> (\<forall>q<next_addr h. cells h' q = cells h q) \<and> next_addr h \<le> r)
     \<and> (analysis_at h p kt fl rs rc qs kts recs a \<and> 4 \<le> limit
        \<longrightarrow> (\<exists>h2 r2. to_dict limit h p = Some (h2, r2)
               \<and> (\<forall>q<next_addr h. cells h2 q = cells h q) \<and> next_addr h \<le> r2
               \<and> analysis_at h2 p kt fl rs rc qs kts recs a
               \<and> read_json 3 h2 (HRef r2) = Some (to_dict_value a)))"
proof (rule conjI; rule impI)
  assume t: "to_dict limit h p = Some (h', r)"
  note f = to_dict_frame [OF assms t]
  show "(\<forall>q<next_addr h. cells h' q = cells h q) \<and> next_addr h \<le> r"
    by (rule conjI [OF conjunct1 [OF f] conjunct1 [OF conjunct2 [OF f]]])
next
  assume h: "analysis_at h p kt fl rs rc qs kts recs a \<and> 4 \<le> limit"
  then obtain n where n: "limit = Suc (Suc (Suc (Suc n)))"
    using four_le by blast
  have A: "analysis_at h p kt fl rs rc qs kts recs a" using h by (rule conjunct1)
  from to_dict_analysis [OF A, of n] obtain h2 where
    td: "to_dict limit h p = Some (h2, next_addr h + length qs + 4)"
    and rd: "read_json (Suc (Suc (Suc 0))) h2 (HRef (next_addr h + length qs + 4))
        = Some (to_dict_value a)"
    unfolding n by (elim exE conjE)
  have fr: "(\<forall>q<next_addr h. cells h2 q = cells h q)
      \<and> next_addr h \<le> next_addr h + length qs + 4 \<and> next_addr h \<le> next_addr h2"
    using to_dict_frame [OF assms td] .
  have fr1: "\<forall>q<next_addr h. cells h2 q = cells h q" using fr by (rule conjunct1)
  have fr2: "next_addr h \<le> next_addr h + length qs + 4" by simp
  have fr3: "next_addr h \<le> next_addr h2" by (rule conjunct2 [OF conjunct2 [OF fr]])
  have A2: "analysis_at h2 p kt fl rs rc qs kts recs a"
    using A fr1 fr3 by (rule analysis_at_frame)
  have rd3: "read_json 3 h2 (HRef (next_addr h + length qs + 4)) = Some (to_dict_value a)"
    using rd by (simp only: numeral_3_eq_3)
  show "\<exists>h2 r2. to_dict limit h p = Some (h2, r2)
      \<and> (\<forall>q<next_addr h. cells h2 q = cells h q) \<and> next_addr h \<le> r2
      \<and> analysis_at h2 p kt fl rs rc qs kts recs a
      \<and> read_json 3 h2 (HRef r2) = Some (to_dict_value a)"
    by (intro exI conjI; (rule td fr1 fr2 A2 rd3))
qed

text \<open>
  A store of six objects that hold an analysis with one red flag, and the default
  recursion limit.
\<close>

theorem to_dict_does_not_mutate_witness:
  "wf_heap heap_sample
   \<and> analysis_at heap_sample 5 0 2 3 4 [1]
        [(cps ''parties'', PStr (cps ''A and B''))] [PStr (cps ''Negotiate'')] analysis_sample
   \<and> 4 \<le> recursion_limit
   \<and> (\<exists>h2 r2. to_dict recursion_limit heap_sample 5 = Some (h2, r2)
         \<and> (\<forall>q<next_addr heap_sample. cells h2 q = cells heap_sample q)
         \<and> next_addr heap_sample \<le> r2
         \<and> analysis_at h2 5 0 2 3 4 [1]
              [(cps ''parties'', PStr (cps ''A and B''))] [PStr (cps ''Negotiate'')] analysis_sample
         \<and> read_json 3 h2 (HRef r2) = Some (to_dict_value analysis_sample))"
proof -
  have w: "wf_heap heap_sample"
    by (simp add: wf_heap_def heap_sample_def)
  have a: "analysis_at heap_sample 5 0 2 3 4 [1]
        [(cps ''parties'', PStr (cps ''A and B''))] [PStr (cps ''Negotiate'')] analysis_sample"
    by (simp add: analysis_at_def heap_sample_def objects_sample_def analysis_sample_def
        flag_sample_def typed_flag_def)
  have l: "4 \<le> recursion_limit"
    by (simp add: recursion_limit_def)
  note t = to_dict_does_not_mutate [OF w, THEN conjunct2, rule_format, OF conjI [OF a l]]
  show ?thesis by (intro conjI w a l t)
qed

end
